theory Spec2Isabelle
  imports Main
begin

section \<open>The MLFQ simulator (mlfqsim.c) as HOL functions\<close>

text \<open>
  The program keeps three FIFO run queues \<open>L0\<close>, \<open>L1\<close>, \<open>L2\<close> of processes, a pid
  counter and writes trace lines to standard output. The model passes these globals
  around as one record \<open>sim\<close>; a queue (an intrusive singly linked list with head and
  tail pointers in C) is the list of its processes from head to tail; each
  \<open>printf\<close> call appends one \<open>event\<close> carrying the call's arguments, and \<open>render\<close>
  gives the text of the line.

  C \<open>int\<close> is 32 bits wide. The fields stay \<open>int\<close> in HOL. The counters and the
  per-tick bookkeeping are wrapped by \<open>int32\<close> (two's complement). The digit loop of
  the loader is different: there a long enough amount overflows a signed \<open>int\<close>,
  which C leaves undefined, and compilers differ in what they make of it. The model
  does not pick one outcome: the loader takes a parameter \<open>ub\<close> that says, for an
  amount that overflowed, whether a process is created and with which work. What is
  proved for every \<open>ub\<close> holds however the overflow is resolved; what needs the
  amounts to fit is proved under \<open>amounts_fit\<close>.
\<close>

subsection \<open>Machine integers and constants\<close>

definition int32 :: "int \<Rightarrow> int" where
  "int32 x = (x + 2147483648) mod 4294967296 - 2147483648"

definition INT_MAX :: int where "INT_MAX = 2147483647"

definition TICK_MS :: int where "TICK_MS = 10"
definition Q_L0 :: int where "Q_L0 = 1"
definition Q_L1 :: int where "Q_L1 = 2"
definition Q_L2 :: int where "Q_L2 = 4"

subsection \<open>Processes, queues, the globals\<close>

record proc =
  pid :: int
  name :: string
  work_left :: int
  ticks_left :: int
  level :: int

type_synonym queue_t = "proc list"

datatype event =
    Consumed string int int int   \<comment> \<open>name, pid, ms, level: a running tick\<close>
  | Exited string int             \<comment> \<open>name, pid\<close>
  | Idle_consumed int             \<comment> \<open>ms: an idle tick\<close>

record sim =
  L0 :: queue_t
  L1 :: queue_t
  L2 :: queue_t
  next_pid :: int
  out :: "event list"

definition sim0 :: sim where
  "sim0 = \<lparr>L0 = [], L1 = [], L2 = [], next_pid = 1, out = []\<rparr>"

definition q_push :: "queue_t \<Rightarrow> proc \<Rightarrow> queue_t" where
  "q_push q p = q @ [p]"

definition q_pop :: "queue_t \<Rightarrow> (proc \<times> queue_t) option" where
  "q_pop q = (case q of [] \<Rightarrow> None | p # r \<Rightarrow> Some (p, r))"

subsection \<open>The text of a trace line\<close>

definition digit_char :: "nat \<Rightarrow> char" where
  "digit_char d = char_of (48 + d)"

function show_nat :: "nat \<Rightarrow> string" where
  "show_nat n = (if n < 10 then [digit_char n] else show_nat (n div 10) @ [digit_char (n mod 10)])"
  by pat_completeness auto
termination
  by (relation "measure id") auto

declare show_nat.simps [simp del]

definition show_int :: "int \<Rightarrow> string" where
  "show_int i = (if i < 0 then CHR ''-'' # show_nat (nat (- i)) else show_nat (nat i))"

fun render :: "event \<Rightarrow> string" where
  "render (Consumed nm p ms l) =
     ''Process '' @ nm @ '' '' @ show_int p @ '' has consumed '' @ show_int ms @ '' ms in L'' @ show_int l"
| "render (Exited nm p) = ''Process '' @ nm @ '' '' @ show_int p @ '' EXIT''"
| "render (Idle_consumed ms) = ''Process idle 0 has consumed '' @ show_int ms @ '' ms in IDLE''"

subsection \<open>Process creation and the workload loader\<close>

definition new_proc :: "string \<Rightarrow> int \<Rightarrow> sim \<Rightarrow> sim" where
  "new_proc nm ms st =
     (let p = \<lparr>pid = next_pid st, name = take 31 nm, work_left = ms,
               ticks_left = Q_L0, level = 0\<rparr>
      in st\<lparr>next_pid := int32 (next_pid st + 1), L0 := q_push (L0 st) p\<rparr>)"

text \<open>
  The command is a C string: the list of its bytes before the terminating NUL, so
  the end of the list is where the C code reads \<open>'\0'\<close>.
\<close>

definition is_sep :: "char \<Rightarrow> bool" where
  "is_sep c \<longleftrightarrow> c = CHR '' '' \<or> c = CHR 0x09 \<or> c = CHR '';'' \<or> c = CHR ''&''"

definition is_blank :: "char \<Rightarrow> bool" where
  "is_blank c \<longleftrightarrow> c = CHR '' '' \<or> c = CHR 0x09"

definition is_digit :: "char \<Rightarrow> bool" where
  "is_digit c \<longleftrightarrow> (48::nat) \<le> of_char c \<and> of_char c \<le> (57::nat)"

text \<open>
  The digit loop \<open>while(*s>='0'&&*s<='9') { ms = ms*10 + (*s-'0'); s++; }\<close>.
  \<open>digit_step\<close> is the assignment in its body: \<open>ms\<close> is \<open>Some m\<close> as long as the
  arithmetic stayed within \<open>int\<close>, and \<open>None\<close> from the first step whose result
  exceeds \<open>INT_MAX\<close>, where the behaviour of the C program is undefined. The loop
  still runs to the end of the digits.
\<close>

definition digit_step :: "int option \<Rightarrow> int \<Rightarrow> int option" where
  "digit_step ms d =
     (case ms of
        None \<Rightarrow> None
      | Some m \<Rightarrow> if m * 10 + d \<le> INT_MAX then Some (m * 10 + d) else None)"

fun parse_ms :: "int option \<Rightarrow> string \<Rightarrow> int option \<times> string" where
  "parse_ms ms [] = (ms, [])"
| "parse_ms ms (c # s) =
     (if is_digit c then parse_ms (digit_step ms (of_char c - 48)) s else (ms, c # s))"

text \<open>
  One pass of the body of the outer loop, entered at a character that is not a
  separator: the \<open>spin\<close> command if there is one, then the skip past the next \<open>;\<close>.
  With an amount that fits, \<open>if(ms>0) new_proc("spin", ms)\<close> is as written. With an
  amount that overflowed, \<open>ub\<close> applied to the text of the amount decides: \<open>None\<close>
  creates no process, \<open>Some w\<close> creates one whose work is \<open>w\<close> as an \<open>int\<close>. A build
  that wraps and then tests \<open>ms>0\<close> is one such \<open>ub\<close>; a build that assumes no
  overflow and creates a process with negative work is another.
\<close>

type_synonym overflow = "string \<Rightarrow> int option"

definition spin_cmd :: "overflow \<Rightarrow> string \<Rightarrow> sim \<Rightarrow> string \<times> sim" where
  "spin_cmd ub s st =
     (if take 4 s = ''spin'' then
        (let s1 = dropWhile is_blank (drop 4 s);
             r = parse_ms (Some 0) s1
         in (snd r,
             case fst r of
               Some ms \<Rightarrow> if ms > 0 then new_proc ''spin'' ms st else st
             | None \<Rightarrow> (case ub s1 of
                          Some w \<Rightarrow> new_proc ''spin'' (int32 w) st
                        | None \<Rightarrow> st)))
      else (s, st))"

definition skip_cmd :: "string \<Rightarrow> string" where
  "skip_cmd s =
     (let s1 = dropWhile (\<lambda>c. c \<noteq> CHR '';'') s
      in case s1 of [] \<Rightarrow> [] | c # r \<Rightarrow> if c = CHR '';'' then r else s1)"

lemma length_parse_ms: "length (snd (parse_ms ms s)) \<le> length s"
  by (induction s arbitrary: ms) (auto intro: le_SucI)

lemma length_skip_cmd: "length (skip_cmd s) \<le> length s"
proof -
  have "length (dropWhile (\<lambda>c. c \<noteq> CHR '';'') s) \<le> length s"
    by (rule length_dropWhile_le)
  then show ?thesis
    by (auto simp: skip_cmd_def Let_def split: list.splits)
qed

lemma skip_cmd_shorter:
  assumes "s \<noteq> []" and "\<not> is_sep (hd s)"
  shows "length (skip_cmd (fst (spin_cmd ub s st))) < length s"
proof (cases "take 4 s = ''spin''")
  case True
  then have "length (take 4 s) = length ''spin''"
    by simp
  then have "4 \<le> length s"
    by simp
  have "length (snd (parse_ms (Some 0) (dropWhile is_blank (drop 4 s))))
          \<le> length (dropWhile is_blank (drop 4 s))"
    by (rule length_parse_ms)
  also have "\<dots> \<le> length (drop 4 s)"
    by (rule length_dropWhile_le)
  also have "\<dots> = length s - 4"
    by simp
  finally have "length (fst (spin_cmd ub s st)) \<le> length s - 4"
    using True by (simp add: spin_cmd_def Let_def)
  moreover have "length (skip_cmd (fst (spin_cmd ub s st))) \<le> length (fst (spin_cmd ub s st))"
    by (rule length_skip_cmd)
  ultimately show ?thesis
    using \<open>4 \<le> length s\<close> by linarith
next
  case False
  then have same: "fst (spin_cmd ub s st) = s"
    by (simp add: spin_cmd_def)
  from assms obtain c r where s: "s = c # r" and c: "c \<noteq> CHR '';''"
    by (cases s) (auto simp: is_sep_def)
  have "length (skip_cmd (c # r)) = length (skip_cmd r)"
    using c by (simp add: skip_cmd_def)
  also have "\<dots> \<le> length r"
    by (rule length_skip_cmd)
  finally have "length (skip_cmd s) < length s"
    using s by simp
  then show ?thesis
    by (simp only: same)
qed

function userinit_loop :: "overflow \<Rightarrow> string \<Rightarrow> sim \<Rightarrow> sim" where
  "userinit_loop ub s st =
     (if s = [] then st
      else let s1 = dropWhile is_sep s
           in if s1 = [] then st
              else userinit_loop ub (skip_cmd (fst (spin_cmd ub s1 st))) (snd (spin_cmd ub s1 st)))"
  by pat_completeness auto
termination
proof (relation "measure (\<lambda>(ub, s, st). length s)", goal_cases)
  case 1
  show ?case by simp
next
  case (2 ub s st s1)
  then have "s1 \<noteq> []" and "\<not> is_sep (hd s1)"
    by (auto simp: hd_dropWhile)
  then have "length (skip_cmd (fst (spin_cmd ub s1 st))) < length s1"
    by (rule skip_cmd_shorter)
  also have "\<dots> \<le> length s"
    using 2 by (simp add: length_dropWhile_le)
  finally show ?case by simp
qed

declare userinit_loop.simps [simp del]

definition userinit_spin :: "overflow \<Rightarrow> string \<Rightarrow> sim \<Rightarrow> sim" where
  "userinit_spin ub cmd st = userinit_loop ub cmd st"

subsection \<open>One tick of the scheduler\<close>

definition on_tick :: "proc \<Rightarrow> sim \<Rightarrow> proc \<times> sim" where
  "on_tick p st =
     (let p1 = p\<lparr>work_left := int32 (work_left p - TICK_MS)\<rparr>;
          p2 = p1\<lparr>ticks_left := int32 (ticks_left p1 - 1)\<rparr>
      in (p2, st\<lparr>out := out st @ [Consumed (name p2) (pid p2) TICK_MS (level p2)]\<rparr>))"

definition proc_exit :: "proc \<Rightarrow> sim \<Rightarrow> sim" where
  "proc_exit p st = st\<lparr>out := out st @ [Exited (name p) (pid p)]\<rparr>"

text \<open>The guard \<open>p->ticks_left = p->ticks_left ? p->ticks_left : Q\<close> on the selected process.\<close>

definition quantum_guard :: "int \<Rightarrow> proc \<Rightarrow> proc" where
  "quantum_guard q p = p\<lparr>ticks_left := (if ticks_left p \<noteq> 0 then ticks_left p else q)\<rparr>"

text \<open>
  Step 1 of \<open>schedule_one_tick\<close>: the chain \<open>if(L0.head) ... else if(L1.head) ... else
  if(L2.head) ... else\<close>. A queue has a head exactly when \<open>q_pop\<close> returns a process.
  The result is the selected process after the guard, \<open>qid\<close>, and the globals with the
  process popped; \<open>None\<close> is the last \<open>else\<close>.
\<close>

definition pick :: "sim \<Rightarrow> (proc \<times> int \<times> sim) option" where
  "pick st =
     (case q_pop (L0 st) of
        Some (p, q) \<Rightarrow> Some (quantum_guard Q_L0 p, 0, st\<lparr>L0 := q\<rparr>)
      | None \<Rightarrow>
     (case q_pop (L1 st) of
        Some (p, q) \<Rightarrow> Some (quantum_guard Q_L1 p, 1, st\<lparr>L1 := q\<rparr>)
      | None \<Rightarrow>
     (case q_pop (L2 st) of
        Some (p, q) \<Rightarrow> Some (quantum_guard Q_L2 p, 2, st\<lparr>L2 := q\<rparr>)
      | None \<Rightarrow> None)))"

text \<open>The round robin and demotion at the end of \<open>schedule_one_tick\<close>.\<close>

definition requeue :: "int \<Rightarrow> proc \<Rightarrow> sim \<Rightarrow> sim" where
  "requeue qid p st =
     (if qid = 0 then
        (if ticks_left p > 0 then st\<lparr>L0 := q_push (L0 st) p\<rparr>
         else st\<lparr>L1 := q_push (L1 st) (p\<lparr>level := 1, ticks_left := Q_L1\<rparr>)\<rparr>)
      else if qid = 1 then
        (if ticks_left p > 0 then st\<lparr>L1 := q_push (L1 st) p\<rparr>
         else st\<lparr>L2 := q_push (L2 st) (p\<lparr>level := 2, ticks_left := Q_L2\<rparr>)\<rparr>)
      else
        (if ticks_left p > 0 then st\<lparr>L2 := q_push (L2 st) p\<rparr>
         else st\<lparr>L2 := q_push (L2 st) (p\<lparr>ticks_left := Q_L2\<rparr>)\<rparr>))"

definition schedule_one_tick :: "sim \<Rightarrow> sim" where
  "schedule_one_tick st =
     (case pick st of
        None \<Rightarrow> st\<lparr>out := out st @ [Idle_consumed TICK_MS]\<rparr>
      | Some (p, qid, st1) \<Rightarrow>
          (let r = on_tick p st1; p1 = fst r; st2 = snd r
           in if work_left p1 \<le> 0 then proc_exit p1 st2 else requeue qid p1 st2))"

subsection \<open>The tick driver: the loop of \<open>main\<close>\<close>

record driver =
  idle :: int
  ticks :: int
  globals :: sim

datatype step = Break driver | Continue driver

text \<open>One pass through the body of \<open>while(1)\<close>.\<close>

definition iteration :: "driver \<Rightarrow> step" where
  "iteration d =
     (if ticks d > 100000 then Break d
      else if L0 (globals d) = [] \<and> L1 (globals d) = [] \<and> L2 (globals d) = [] then
        (let d1 = d\<lparr>idle := int32 (idle d + 1), ticks := int32 (ticks d + 1)\<rparr>
         in if idle d1 > 10 then Break d1
            else Continue (d1\<lparr>globals :=
                   (globals d1)\<lparr>out := out (globals d1) @ [Idle_consumed TICK_MS]\<rparr>\<rparr>))
      else Continue (d\<lparr>idle := 0, ticks := int32 (ticks d + 1),
                       globals := schedule_one_tick (globals d)\<rparr>))"

partial_function (option) main_loop :: "driver \<Rightarrow> driver option" where
  "main_loop d = (case iteration d of Break d' \<Rightarrow> Some d' | Continue d' \<Rightarrow> main_loop d')"

declare main_loop.simps [code]


definition start :: "overflow \<Rightarrow> string \<Rightarrow> driver" where
  "start ub cmdline = \<lparr>idle = 0, ticks = 0, globals = userinit_spin ub cmdline sim0\<rparr>"


text \<open>The driver after at most \<open>n\<close> passes through the loop body (fewer when it breaks).\<close>

fun after_iterations :: "nat \<Rightarrow> driver \<Rightarrow> driver" where
  "after_iterations 0 d = d"
| "after_iterations (Suc n) d =
     (case iteration d of Break d' \<Rightarrow> d' | Continue d' \<Rightarrow> after_iterations n d')"

section \<open>Observations and invariants\<close>

text \<open>
  \<open>procs\<close> lists the processes resident in the run queues, \<open>queue_at\<close> is the queue of a
  level and \<open>quantum\<close> the fixed quantum of a level. \<open>sim_inv\<close> says that every
  process in the queue of level \<open>l\<close> has \<open>level = l\<close> and between 1 and \<open>quantum l\<close>
  ticks left; it holds whatever work the processes were created with. \<open>work_inv\<close>
  says that every resident process has positive work that fits a C \<open>int\<close>.
\<close>

definition procs :: "sim \<Rightarrow> proc list" where
  "procs st = L0 st @ L1 st @ L2 st"

definition quantum :: "int \<Rightarrow> int" where
  "quantum l = (if l = 0 then Q_L0 else if l = 1 then Q_L1 else Q_L2)"

definition proc_ok :: "int \<Rightarrow> proc \<Rightarrow> bool" where
  "proc_ok l p \<longleftrightarrow> level p = l \<and> 1 \<le> ticks_left p \<and> ticks_left p \<le> quantum l"

definition sim_inv :: "sim \<Rightarrow> bool" where
  "sim_inv st \<longleftrightarrow>
     list_all (proc_ok 0) (L0 st) \<and> list_all (proc_ok 1) (L1 st) \<and> list_all (proc_ok 2) (L2 st)"


definition queue_at :: "sim \<Rightarrow> int \<Rightarrow> queue_t" where
  "queue_at st l = (if l = 0 then L0 st else if l = 1 then L1 st else L2 st)"

text \<open>
  \<open>amounts_fit cmd\<close>: every amount the loader reads stays within \<open>int\<close>. It walks
  the command as the loader does, command by command up to the next \<open>;\<close>, and asks of
  each one that starts with \<open>spin\<close> that the digit loop does not overflow. Then the
  loader never reaches the undefined case and does not depend on \<open>ub\<close>.
  \<open>no_process\<close> is the \<open>ub\<close> that drops an overflowed amount; the concrete runs
  below use it, on commands whose amounts fit.
\<close>

lemma skip_cmd_shorter_plain:
  assumes "s \<noteq> []" and "\<not> is_sep (hd s)"
  shows "length (skip_cmd s) < length s"
proof -
  from assms obtain c r where s: "s = c # r" and c: "c \<noteq> CHR '';''"
    by (cases s) (auto simp: is_sep_def)
  have "length (skip_cmd (c # r)) = length (skip_cmd r)"
    using c by (simp add: skip_cmd_def)
  also have "\<dots> \<le> length r"
    by (rule length_skip_cmd)
  finally show ?thesis
    using s by simp
qed

function amounts_fit :: "string \<Rightarrow> bool" where
  "amounts_fit s =
     (if s = [] then True
      else let s1 = dropWhile is_sep s
           in if s1 = [] then True
              else (take 4 s1 = ''spin'' \<longrightarrow>
                      fst (parse_ms (Some 0) (dropWhile is_blank (drop 4 s1))) \<noteq> None) \<and>
                   amounts_fit (skip_cmd s1))"
  by pat_completeness auto
termination
proof (relation "measure length", goal_cases)
  case 1
  show ?case by simp
next
  case (2 s s1)
  then have "s1 \<noteq> []" and "\<not> is_sep (hd s1)"
    by (auto simp: hd_dropWhile)
  then have "length (skip_cmd s1) < length s1"
    by (rule skip_cmd_shorter_plain)
  also have "\<dots> \<le> length s"
    using 2 by (simp add: length_dropWhile_le)
  finally show ?case by simp
qed

declare amounts_fit.simps [simp del]

definition no_process :: overflow where
  "no_process s = None"

text \<open>
  \<open>min_process\<close> is a \<open>ub\<close> of the other kind: the overflowed amount becomes a
  process whose work is the least \<open>int\<close>, as a build does that wraps the amount
  \<open>2147483648\<close> and takes \<open>ms>0\<close> for granted.
\<close>

definition min_process :: overflow where
  "min_process s = Some (- 2147483648)"

text \<open>
  \<open>running\<close> bounds the two counters of the driver while the loop is still going;
  \<open>event_pid\<close> is the pid a trace line prints (the idle line prints 0); \<open>pid_inv\<close>
  says that the resident processes have distinct positive pids below \<open>next_pid\<close>;
  \<open>push_at l q\<close> appends \<open>q\<close> to the queue of level \<open>l\<close>.
\<close>

definition running :: "driver \<Rightarrow> bool" where
  "running d \<longleftrightarrow> 0 \<le> idle d \<and> idle d \<le> 10 \<and> 0 \<le> ticks d \<and> ticks d \<le> 100001"


definition pid_inv :: "sim \<Rightarrow> bool" where
  "pid_inv st \<longleftrightarrow>
     distinct (map pid (procs st)) \<and> (\<forall>p \<in> set (procs st). 0 < pid p \<and> pid p < next_pid st) \<and>
     0 < next_pid st"

definition push_at :: "int \<Rightarrow> proc \<Rightarrow> sim \<Rightarrow> sim" where
  "push_at l q st =
     (if l = 0 then st\<lparr>L0 := L0 st @ [q]\<rparr>
      else if l = 1 then st\<lparr>L1 := L1 st @ [q]\<rparr>
      else st\<lparr>L2 := L2 st @ [q]\<rparr>)"

text \<open>
  The loader as the specification words it: every occurrence of \<open>spin\<close>, followed by
  whitespace and a decimal integer, anywhere in the command, gives one process with
  that integer as work; zero amounts are skipped. \<open>decimal\<close> is the value of a digit
  string.
\<close>

definition decimal :: "string \<Rightarrow> int" where
  "decimal ds = foldl (\<lambda>a c. a * 10 + (of_char c - 48)) 0 ds"

definition spin_here :: "string \<Rightarrow> int list" where
  "spin_here s =
     (let b = takeWhile is_blank (drop 4 s);
          ds = takeWhile is_digit (dropWhile is_blank (drop 4 s))
      in if take 4 s = ''spin'' \<and> b \<noteq> [] \<and> ds \<noteq> [] \<and> 0 < decimal ds then [decimal ds] else [])"

fun spec_spin_amounts :: "string \<Rightarrow> int list" where
  "spec_spin_amounts [] = []"
| "spec_spin_amounts (c # s) = spin_here (c # s) @ spec_spin_amounts s"

section \<open>The invariant holds in every state the driver reaches\<close>

lemma int32_id: "- 2147483648 \<le> x \<Longrightarrow> x < 2147483648 \<Longrightarrow> int32 x = x"
  by (simp add: int32_def)

lemma sim_inv_sim0: "sim_inv sim0"
  by (simp add: sim_inv_def sim0_def)

lemma sim_inv_new_proc: "sim_inv st \<Longrightarrow> sim_inv (new_proc nm ms st)"
  by (simp add: sim_inv_def new_proc_def q_push_def proc_ok_def quantum_def Q_L0_def)

lemma spin_cmd_creates:
  "snd (spin_cmd ub s st) = st \<or> (\<exists>ms. snd (spin_cmd ub s st) = new_proc ''spin'' ms st)"
  by (auto simp: spin_cmd_def Let_def split: option.splits)

lemma sim_inv_spin_cmd: "sim_inv st \<Longrightarrow> sim_inv (snd (spin_cmd ub s st))"
  using spin_cmd_creates [of ub s st] by (auto simp: sim_inv_new_proc)

lemma sim_inv_userinit_loop: "sim_inv st \<Longrightarrow> sim_inv (userinit_loop ub s st)"
proof (induction ub s st rule: userinit_loop.induct)
  case (1 ub s st)
  show ?case
  proof (cases "s = [] \<or> dropWhile is_sep s = []")
    case True
    then show ?thesis using "1.prems" by (subst userinit_loop.simps) (auto simp: Let_def)
  next
    case False
    then have "sim_inv (userinit_loop ub (skip_cmd (fst (spin_cmd ub (dropWhile is_sep s) st)))
                 (snd (spin_cmd ub (dropWhile is_sep s) st)))"
      using "1.IH" "1.prems" sim_inv_spin_cmd by simp
    then show ?thesis using False by (subst userinit_loop.simps) (auto simp: Let_def)
  qed
qed

lemma sim_inv_start: "sim_inv (globals (start ub cmd))"
  by (simp add: start_def userinit_spin_def sim_inv_userinit_loop sim_inv_sim0)

text \<open>What one tick does in a state that satisfies the invariant, queue by queue.\<close>

lemma tick_idle:
  "L0 st = [] \<Longrightarrow> L1 st = [] \<Longrightarrow> L2 st = [] \<Longrightarrow>
   schedule_one_tick st = st\<lparr>out := out st @ [Idle_consumed 10]\<rparr>"
  by (simp add: schedule_one_tick_def pick_def q_pop_def TICK_MS_def)

lemma tick_L0:
  assumes "sim_inv st" and "L0 st = p # r"
  shows "schedule_one_tick st =
    (if int32 (work_left p - 10) \<le> 0
     then st\<lparr>L0 := r, out := out st @ [Consumed (name p) (pid p) 10 0, Exited (name p) (pid p)]\<rparr>
     else st\<lparr>L0 := r,
             L1 := L1 st @ [p\<lparr>work_left := int32 (work_left p - 10), level := 1, ticks_left := 2\<rparr>],
             out := out st @ [Consumed (name p) (pid p) 10 0]\<rparr>)"
proof -
  from assms have ok: "proc_ok 0 p"
    by (simp add: sim_inv_def)
  then have t: "ticks_left p = 1" and l: "level p = 0"
    by (auto simp: proc_ok_def quantum_def Q_L0_def)
  show ?thesis
    using assms(2) t l
    by (simp add: schedule_one_tick_def pick_def q_pop_def quantum_guard_def on_tick_def
        proc_exit_def requeue_def q_push_def Let_def TICK_MS_def Q_L0_def Q_L1_def int32_id)
qed

lemma tick_L1:
  assumes "sim_inv st" and "L0 st = []" and "L1 st = p # r"
  shows "schedule_one_tick st =
    (if int32 (work_left p - 10) \<le> 0
     then st\<lparr>L1 := r, out := out st @ [Consumed (name p) (pid p) 10 1, Exited (name p) (pid p)]\<rparr>
     else if 1 < ticks_left p
     then st\<lparr>L1 := r @ [p\<lparr>work_left := int32 (work_left p - 10), ticks_left := ticks_left p - 1\<rparr>],
             out := out st @ [Consumed (name p) (pid p) 10 1]\<rparr>
     else st\<lparr>L1 := r,
             L2 := L2 st @ [p\<lparr>work_left := int32 (work_left p - 10), level := 2, ticks_left := 4\<rparr>],
             out := out st @ [Consumed (name p) (pid p) 10 1]\<rparr>)"
proof -
  from assms have ok: "proc_ok 1 p"
    by (simp add: sim_inv_def)
  then have t: "1 \<le> ticks_left p" "ticks_left p \<le> 2" and l: "level p = 1"
    by (auto simp: proc_ok_def quantum_def Q_L1_def)
  from t have t': "int32 (ticks_left p - 1) = ticks_left p - 1"
    by (simp add: int32_id)
  show ?thesis
    using assms(2,3) t l t'
    by (simp add: schedule_one_tick_def pick_def q_pop_def quantum_guard_def on_tick_def
        proc_exit_def requeue_def q_push_def Let_def TICK_MS_def Q_L1_def Q_L2_def)
qed

lemma tick_L2:
  assumes "sim_inv st" and "L0 st = []" and "L1 st = []" and "L2 st = p # r"
  shows "schedule_one_tick st =
    (if int32 (work_left p - 10) \<le> 0
     then st\<lparr>L2 := r, out := out st @ [Consumed (name p) (pid p) 10 2, Exited (name p) (pid p)]\<rparr>
     else if 1 < ticks_left p
     then st\<lparr>L2 := r @ [p\<lparr>work_left := int32 (work_left p - 10), ticks_left := ticks_left p - 1\<rparr>],
             out := out st @ [Consumed (name p) (pid p) 10 2]\<rparr>
     else st\<lparr>L2 := r @ [p\<lparr>work_left := int32 (work_left p - 10), ticks_left := 4\<rparr>],
             out := out st @ [Consumed (name p) (pid p) 10 2]\<rparr>)"
proof -
  from assms have ok: "proc_ok 2 p"
    by (simp add: sim_inv_def)
  then have t: "1 \<le> ticks_left p" "ticks_left p \<le> 4" and l: "level p = 2"
    by (auto simp: proc_ok_def quantum_def Q_L2_def)
  from t have t': "int32 (ticks_left p - 1) = ticks_left p - 1"
    by (simp add: int32_id)
  show ?thesis
    using assms(2,3,4) t l t'
    by (simp add: schedule_one_tick_def pick_def q_pop_def quantum_guard_def on_tick_def
        proc_exit_def requeue_def q_push_def Let_def TICK_MS_def Q_L2_def)
qed

lemma sim_inv_tick: "sim_inv st \<Longrightarrow> sim_inv (schedule_one_tick st)"
proof -
  assume inv: "sim_inv st"
  show ?thesis
  proof (cases "L0 st")
    case (Cons p r)
    with inv show ?thesis
      by (simp add: tick_L0 [OF inv Cons]) (simp add: sim_inv_def proc_ok_def quantum_def Q_L1_def)
  next
    case Nil
    note n0 = Nil
    show ?thesis
    proof (cases "L1 st")
      case (Cons p r)
      with inv show ?thesis
        by (simp add: tick_L1 [OF inv n0 Cons])
           (auto simp: sim_inv_def proc_ok_def quantum_def Q_L1_def Q_L2_def)
    next
      case Nil
      note n1 = Nil
      show ?thesis
      proof (cases "L2 st")
        case (Cons p r)
        with inv show ?thesis
          by (simp add: tick_L2 [OF inv n0 n1 Cons])
             (auto simp: sim_inv_def proc_ok_def quantum_def Q_L2_def)
      next
        case Nil
        with inv n0 n1 show ?thesis
          by (simp add: tick_idle sim_inv_def)
      qed
    qed
  qed
qed

lemma sim_inv_iteration:
  assumes "sim_inv (globals d)"
  shows "sim_inv (globals (case iteration d of Break d' \<Rightarrow> d' | Continue d' \<Rightarrow> d'))"
proof -
  have "sim_inv (schedule_one_tick (globals d))"
    using assms by (rule sim_inv_tick)
  with assms show ?thesis
    by (simp add: iteration_def Let_def) (simp add: sim_inv_def)
qed

lemma sim_inv_after: "sim_inv (globals d) \<Longrightarrow> sim_inv (globals (after_iterations n d))"
proof (induction n arbitrary: d)
  case 0
  then show ?case by simp
next
  case (Suc n)
  from Suc.prems have step: "sim_inv (globals (case iteration d of Break d' \<Rightarrow> d' | Continue d' \<Rightarrow> d'))"
    by (rule sim_inv_iteration)
  show ?case
  proof (cases "iteration d")
    case (Break d')
    with step show ?thesis by simp
  next
    case (Continue d')
    with step have "sim_inv (globals d')" by simp
    then have "sim_inv (globals (after_iterations n d'))" by (rule Suc.IH)
    with Continue show ?thesis by simp
  qed
qed

lemma sim_inv_reachable: "sim_inv (globals (after_iterations n (start ub cmd)))"
  by (rule sim_inv_after) (rule sim_inv_start)

lemma sim_inv_resident:
  "sim_inv st \<Longrightarrow> p \<in> set (procs st) \<Longrightarrow>
     1 \<le> ticks_left p \<and> ticks_left p \<le> quantum (level p) \<and>
     0 \<le> level p \<and> level p \<le> 2 \<and> p \<in> set (queue_at st (level p))"
  by (auto simp: sim_inv_def procs_def list_all_iff proc_ok_def queue_at_def)

lemma pick_inv:
  assumes "sim_inv st"
  shows "pick st =
    (case L0 st of p # r \<Rightarrow> Some (p, 0, st\<lparr>L0 := r\<rparr>) | [] \<Rightarrow>
    (case L1 st of p # r \<Rightarrow> Some (p, 1, st\<lparr>L1 := r\<rparr>) | [] \<Rightarrow>
    (case L2 st of p # r \<Rightarrow> Some (p, 2, st\<lparr>L2 := r\<rparr>) | [] \<Rightarrow> None)))"
proof -
  have "quantum_guard q p = p" if "proc_ok l p" for q l p
    using that by (simp add: quantum_guard_def proc_ok_def)
  with assms show ?thesis
    by (auto simp: pick_def q_pop_def sim_inv_def split: list.splits)
qed

lemma on_tick_inv:
  assumes "proc_ok l p"
  shows "fst (on_tick p st1) =
           p\<lparr>work_left := int32 (work_left p - 10), ticks_left := ticks_left p - 1\<rparr>"
    and "snd (on_tick p st1) = st1\<lparr>out := out st1 @ [Consumed (name p) (pid p) 10 (level p)]\<rparr>"
proof -
  from assms have "int32 (ticks_left p - 1) = ticks_left p - 1"
    by (auto simp: proc_ok_def quantum_def Q_L0_def Q_L1_def Q_L2_def intro!: int32_id split: if_splits)
  then show "fst (on_tick p st1) =
           p\<lparr>work_left := int32 (work_left p - 10), ticks_left := ticks_left p - 1\<rparr>"
    and "snd (on_tick p st1) = st1\<lparr>out := out st1 @ [Consumed (name p) (pid p) 10 (level p)]\<rparr>"
    by (simp_all add: on_tick_def Let_def TICK_MS_def)
qed

lemma iteration_at_cap: "100000 < ticks d \<Longrightarrow> iteration d = Break d"
  by (simp add: iteration_def)

lemma iteration_idle:
  assumes "ticks d \<le> 100000" and "0 \<le> ticks d" and "0 \<le> idle d" and "idle d \<le> 10"
    and "L0 (globals d) = [] \<and> L1 (globals d) = [] \<and> L2 (globals d) = []"
  shows "iteration d =
    (if 10 < idle d + 1 then Break (d\<lparr>idle := idle d + 1, ticks := ticks d + 1\<rparr>)
     else Continue (d\<lparr>idle := idle d + 1, ticks := ticks d + 1,
            globals := (globals d)\<lparr>out := out (globals d) @ [Idle_consumed TICK_MS]\<rparr>\<rparr>))"
proof -
  from assms have "int32 (idle d + 1) = idle d + 1" and "int32 (ticks d + 1) = ticks d + 1"
    by (simp_all add: int32_id)
  with assms show ?thesis
    by (simp add: iteration_def Let_def)
qed

lemma iteration_active:
  assumes "ticks d \<le> 100000" and "0 \<le> ticks d"
    and "\<not> (L0 (globals d) = [] \<and> L1 (globals d) = [] \<and> L2 (globals d) = [])"
  shows "iteration d =
    Continue (d\<lparr>idle := 0, ticks := ticks d + 1, globals := schedule_one_tick (globals d)\<rparr>)"
proof -
  from assms have "int32 (ticks d + 1) = ticks d + 1"
    by (simp add: int32_id)
  with assms show ?thesis
    by (auto simp: iteration_def)
qed

lemma iteration_running:
  assumes "running d"
  shows "(\<forall>d'. iteration d = Continue d' \<longrightarrow> running d' \<and> ticks d' = ticks d + 1) \<and>
         (\<forall>d'. iteration d = Break d' \<longrightarrow>
            (idle d' = 11 \<and> ticks d' = ticks d + 1 \<and> ticks d \<le> 100000) \<or>
            (ticks d' = 100001 \<and> d' = d))"
proof (cases "100000 < ticks d")
  case True
  with assms have "ticks d = 100001" by (simp add: running_def)
  with True show ?thesis by (simp add: iteration_at_cap)
next
  case False
  note cap = False
  show ?thesis
  proof (cases "L0 (globals d) = [] \<and> L1 (globals d) = [] \<and> L2 (globals d) = []")
    case True
    from assms cap have "iteration d =
      (if 10 < idle d + 1 then Break (d\<lparr>idle := idle d + 1, ticks := ticks d + 1\<rparr>)
       else Continue (d\<lparr>idle := idle d + 1, ticks := ticks d + 1,
            globals := (globals d)\<lparr>out := out (globals d) @ [Idle_consumed TICK_MS]\<rparr>\<rparr>))"
      by (intro iteration_idle True) (simp_all add: running_def)
    with assms cap show ?thesis
      by (auto simp: running_def)
  next
    case False
    from assms cap have "iteration d =
      Continue (d\<lparr>idle := 0, ticks := ticks d + 1, globals := schedule_one_tick (globals d)\<rparr>)"
      by (intro iteration_active False) (simp_all add: running_def)
    with assms cap show ?thesis
      by (auto simp: running_def)
  qed
qed


lemma running_start: "running (start ub cmd)"
  by (simp add: running_def start_def)

lemma running_after:
  "running d \<Longrightarrow> 0 \<le> ticks (after_iterations n d) \<and> ticks (after_iterations n d) \<le> 100001 \<and>
     0 \<le> idle (after_iterations n d)"
proof (induction n arbitrary: d)
  case 0
  then show ?case by (simp add: running_def)
next
  case (Suc n)
  note run = iteration_running [OF Suc.prems]
  show ?case
  proof (cases "iteration d")
    case (Break d')
    with run Suc.prems show ?thesis by (auto simp: running_def)
  next
    case (Continue d')
    with run have "running d'" by simp
    from Suc.IH [OF this] Continue show ?thesis by simp
  qed
qed


lemma out_new_proc: "out (new_proc nm ms st) = out st"
  by (simp add: new_proc_def)

lemma out_userinit_loop: "out (userinit_loop ub s st) = out st"
proof (induction ub s st rule: userinit_loop.induct)
  case (1 ub s st)
  show ?case
  proof (cases "s = [] \<or> dropWhile is_sep s = []")
    case True
    then show ?thesis by (subst userinit_loop.simps) (auto simp: Let_def)
  next
    case False
    then have "out (userinit_loop ub (skip_cmd (fst (spin_cmd ub (dropWhile is_sep s) st)))
                 (snd (spin_cmd ub (dropWhile is_sep s) st))) = out (snd (spin_cmd ub (dropWhile is_sep s) st))"
      using "1.IH" by simp
    also have "\<dots> = out st"
      using spin_cmd_creates [of ub "dropWhile is_sep s" st] by (auto simp: out_new_proc)
    finally show ?thesis using False by (subst userinit_loop.simps) (auto simp: Let_def)
  qed
qed

lemma out_start: "out (globals (start ub cmd)) = []"
  by (simp add: start_def userinit_spin_def out_userinit_loop sim0_def)

lemma render_idle: "render (Idle_consumed TICK_MS) = ''Process idle 0 has consumed 10 ms in IDLE''"
  by code_simp

lemma idle_run:
  assumes "L0 g = [] \<and> L1 g = [] \<and> L2 g = []" and "0 \<le> i" and "i \<le> 10" and "0 \<le> t" and "t + (10 - i) \<le> 100000"
  shows "main_loop \<lparr>idle = i, ticks = t, globals = g\<rparr> =
           Some \<lparr>idle = 11, ticks = t + 11 - i,
                 globals = g\<lparr>out := out g @ replicate (nat (10 - i)) (Idle_consumed TICK_MS)\<rparr>\<rparr>"
  using assms
proof (induction "nat (10 - i)" arbitrary: i t g)
  case 0
  then have i: "i = 10" by simp
  have "iteration \<lparr>idle = i, ticks = t, globals = g\<rparr> = Break \<lparr>idle = 11, ticks = t + 1, globals = g\<rparr>"
    using "0.prems" i by (subst iteration_idle) simp_all
  then show ?case
    using i by (subst main_loop.simps) simp
next
  case (Suc k)
  then have i: "i < 10" and k: "k = nat (10 - (i + 1))" by simp_all
  let ?g = "g\<lparr>out := out g @ [Idle_consumed TICK_MS]\<rparr>"
  have it: "iteration \<lparr>idle = i, ticks = t, globals = g\<rparr> =
      Continue \<lparr>idle = i + 1, ticks = t + 1, globals = ?g\<rparr>"
    using Suc.prems i by (subst iteration_idle) simp_all
  have "main_loop \<lparr>idle = i + 1, ticks = t + 1, globals = ?g\<rparr> =
      Some \<lparr>idle = 11, ticks = (t + 1) + 11 - (i + 1),
            globals = ?g\<lparr>out := out ?g @ replicate (nat (10 - (i + 1))) (Idle_consumed TICK_MS)\<rparr>\<rparr>"
    using Suc.prems i by (intro Suc.hyps(1) k) simp_all
  moreover have "nat (10 - i) = Suc (nat (10 - (i + 1)))"
    using i Suc.prems by simp
  ultimately show ?case
    using it by (subst main_loop.simps) simp
qed

lemma pick_cases:
  assumes "sim_inv st" and "pick st = Some (p, qid, st1)"
  shows "procs st = p # procs st1 \<and> proc_ok qid p \<and> (qid = 0 \<or> qid = 1 \<or> qid = 2) \<and>
         out st1 = out st \<and> next_pid st1 = next_pid st \<and> sim_inv st1"
  using assms
  by (auto simp: pick_inv [OF assms(1)] procs_def sim_inv_def split: list.splits)

lemma tick_cases:
  assumes "sim_inv st" and "pick st = Some (p, qid, st1)"
  shows "schedule_one_tick st =
    (if int32 (work_left p - 10) \<le> 0
     then st1\<lparr>out := out st @ [Consumed (name p) (pid p) 10 (level p), Exited (name p) (pid p)]\<rparr>
     else requeue qid (p\<lparr>work_left := int32 (work_left p - 10), ticks_left := ticks_left p - 1\<rparr>)
            (st1\<lparr>out := out st @ [Consumed (name p) (pid p) 10 (level p)]\<rparr>))"
proof -
  from pick_cases [OF assms] have ok: "proc_ok qid p" and o: "out st1 = out st"
    by simp_all
  show ?thesis
    by (simp add: schedule_one_tick_def assms(2) Let_def on_tick_inv [OF ok] proc_exit_def o)
qed

lemma requeue_shape:
  assumes "qid = 0 \<or> qid = 1 \<or> qid = 2"
  shows "\<exists>q l. requeue qid p1 st1 = push_at l q st1 \<and> (l = 0 \<or> l = 1 \<or> l = 2) \<and>
           pid q = pid p1 \<and> name q = name p1 \<and> work_left q = work_left p1 \<and>
           (level q = level p1 \<or> level q = qid + 1 \<and> qid < 2)"
proof (cases "0 < ticks_left p1")
  case True
  with assms have "requeue qid p1 st1 = push_at qid p1 st1"
    by (auto simp: requeue_def q_push_def push_at_def)
  with assms show ?thesis by blast
next
  case False
  from assms consider "qid = 0" | "qid = 1" | "qid = 2" by blast
  then show ?thesis
  proof cases
    case 1
    with False have "requeue qid p1 st1 = push_at 1 (p1\<lparr>level := 1, ticks_left := Q_L1\<rparr>) st1"
      by (simp add: requeue_def q_push_def push_at_def)
    moreover have "pid (p1\<lparr>level := 1, ticks_left := Q_L1\<rparr>) = pid p1 \<and>
      name (p1\<lparr>level := 1, ticks_left := Q_L1\<rparr>) = name p1 \<and>
      work_left (p1\<lparr>level := 1, ticks_left := Q_L1\<rparr>) = work_left p1 \<and>
      level (p1\<lparr>level := 1, ticks_left := Q_L1\<rparr>) = qid + 1 \<and> qid < 2"
      using 1 by simp
    ultimately show ?thesis by blast
  next
    case 2
    with False have "requeue qid p1 st1 = push_at 2 (p1\<lparr>level := 2, ticks_left := Q_L2\<rparr>) st1"
      by (simp add: requeue_def q_push_def push_at_def)
    moreover have "pid (p1\<lparr>level := 2, ticks_left := Q_L2\<rparr>) = pid p1 \<and>
      name (p1\<lparr>level := 2, ticks_left := Q_L2\<rparr>) = name p1 \<and>
      work_left (p1\<lparr>level := 2, ticks_left := Q_L2\<rparr>) = work_left p1 \<and>
      level (p1\<lparr>level := 2, ticks_left := Q_L2\<rparr>) = qid + 1 \<and> qid < 2"
      using 2 by simp
    ultimately show ?thesis by blast
  next
    case 3
    with False have "requeue qid p1 st1 = push_at 2 (p1\<lparr>ticks_left := Q_L2\<rparr>) st1"
      by (simp add: requeue_def q_push_def push_at_def)
    moreover have "pid (p1\<lparr>ticks_left := Q_L2\<rparr>) = pid p1 \<and>
      name (p1\<lparr>ticks_left := Q_L2\<rparr>) = name p1 \<and>
      work_left (p1\<lparr>ticks_left := Q_L2\<rparr>) = work_left p1 \<and>
      level (p1\<lparr>ticks_left := Q_L2\<rparr>) = level p1"
      by simp
    ultimately show ?thesis by blast
  qed
qed

lemma push_at_procs:
  "\<exists>a b. procs st = a @ b \<and> procs (push_at l q st) = a @ q # b"
proof -
  consider "l = 0" | "l \<noteq> 0 \<and> l = 1" | "l \<noteq> 0 \<and> l \<noteq> 1" by blast
  then show ?thesis
  proof cases
    case 1
    then have "procs st = L0 st @ (L1 st @ L2 st) \<and>
      procs (push_at l q st) = L0 st @ q # (L1 st @ L2 st)"
      by (simp add: push_at_def procs_def)
    then show ?thesis by blast
  next
    case 2
    then have "procs st = (L0 st @ L1 st) @ L2 st \<and>
      procs (push_at l q st) = (L0 st @ L1 st) @ q # L2 st"
      by (simp add: push_at_def procs_def)
    then show ?thesis by blast
  next
    case 3
    then have "procs st = (L0 st @ L1 st @ L2 st) @ [] \<and>
      procs (push_at l q st) = (L0 st @ L1 st @ L2 st) @ q # []"
      by (simp add: push_at_def procs_def)
    then show ?thesis by blast
  qed
qed

lemma push_at_fields: "out (push_at l q st) = out st" "next_pid (push_at l q st) = next_pid st"
  by (simp_all add: push_at_def)

text \<open>
  One tick on a state with the invariant and a process to run: the other processes
  stay as they are and in their order; the process run either leaves or comes back
  with 10 ms less work, the same pid and name, and a level that is the same or one
  higher.
\<close>

lemma tick_effect:
  assumes "sim_inv st" and "pick st = Some (p, qid, st1)"
  shows "procs st = p # procs st1 \<and> next_pid (schedule_one_tick st) = next_pid st \<and>
    (int32 (work_left p - 10) \<le> 0 \<longrightarrow>
       procs (schedule_one_tick st) = procs st1 \<and>
       out (schedule_one_tick st) =
         out st @ [Consumed (name p) (pid p) 10 (level p), Exited (name p) (pid p)]) \<and>
    (0 < int32 (work_left p - 10) \<longrightarrow>
       out (schedule_one_tick st) = out st @ [Consumed (name p) (pid p) 10 (level p)] \<and>
       (\<exists>q a b. procs st1 = a @ b \<and> procs (schedule_one_tick st) = a @ q # b \<and>
          pid q = pid p \<and> name q = name p \<and> work_left q = int32 (work_left p - 10) \<and>
          level p \<le> level q \<and> level q \<le> 2))"
proof -
  note pc = pick_cases [OF assms]
  note tc = tick_cases [OF assms]
  from pc have lev: "level p = qid" by (simp add: proc_ok_def)
  have exit: "procs (schedule_one_tick st) = procs st1 \<and>
       next_pid (schedule_one_tick st) = next_pid st \<and>
       out (schedule_one_tick st) =
         out st @ [Consumed (name p) (pid p) 10 (level p), Exited (name p) (pid p)]"
    if "int32 (work_left p - 10) \<le> 0"
    using that pc by (simp add: tc procs_def)
  have stay: "out (schedule_one_tick st) = out st @ [Consumed (name p) (pid p) 10 (level p)] \<and>
       next_pid (schedule_one_tick st) = next_pid st \<and>
       (\<exists>q a b. procs st1 = a @ b \<and> procs (schedule_one_tick st) = a @ q # b \<and>
          pid q = pid p \<and> name q = name p \<and> work_left q = int32 (work_left p - 10) \<and>
          level p \<le> level q \<and> level q \<le> 2)"
    if w: "0 < int32 (work_left p - 10)"
  proof -
    let ?p1 = "p\<lparr>work_left := int32 (work_left p - 10), ticks_left := ticks_left p - 1\<rparr>"
    let ?s = "st1\<lparr>out := out st @ [Consumed (name p) (pid p) 10 (level p)]\<rparr>"
    from pc have "qid = 0 \<or> qid = 1 \<or> qid = 2" by simp
    from requeue_shape [OF this, of ?p1 ?s] obtain q l where
      r: "requeue qid ?p1 ?s = push_at l q ?s"
      and q: "pid q = pid p" "name q = name p" "work_left q = int32 (work_left p - 10)"
        "level q = level p \<or> level q = qid + 1 \<and> qid < 2"
      by auto
    from push_at_procs [of ?s l q] obtain a b where
      ab: "procs ?s = a @ b" "procs (push_at l q ?s) = a @ q # b"
      by blast
    have "procs ?s = procs st1" by (simp add: procs_def)
    with ab have "procs st1 = a @ b" by simp
    moreover from w r ab have "procs (schedule_one_tick st) = a @ q # b"
      by (simp add: tc)
    moreover from q(4) lev pc have "level p \<le> level q \<and> level q \<le> 2"
      by auto
    moreover from w r pc have "out (schedule_one_tick st) = out st @ [Consumed (name p) (pid p) 10 (level p)]"
      "next_pid (schedule_one_tick st) = next_pid st"
      by (simp_all add: tc push_at_fields)
    ultimately show ?thesis using q by blast
  qed
  from pc exit stay show ?thesis
    by (cases "int32 (work_left p - 10) \<le> 0") simp_all
qed

lemma pick_None: "pick st = None \<longleftrightarrow> L0 st = [] \<and> L1 st = [] \<and> L2 st = []"
  by (auto simp: pick_def q_pop_def split: list.splits)

lemma iteration_globals:
  "iteration d = Break d' \<Longrightarrow> globals d' = globals d"
  "iteration d = Continue d' \<Longrightarrow> globals d' = schedule_one_tick (globals d)"
  by (auto simp: iteration_def Let_def tick_idle TICK_MS_def split: if_splits)

lemma pid_inv_tick:
  assumes "sim_inv st" and "pid_inv st"
  shows "pid_inv (schedule_one_tick st)"
proof (cases "pick st")
  case None
  then have "schedule_one_tick st = st\<lparr>out := out st @ [Idle_consumed 10]\<rparr>"
    by (simp add: pick_None tick_idle)
  with assms(2) show ?thesis
    by (simp add: pid_inv_def procs_def)
next
  case (Some x)
  then obtain p qid st1 where pk: "pick st = Some (p, qid, st1)"
    by (cases x) auto
  note te = tick_effect [OF assms(1) pk]
  show ?thesis
  proof (cases "int32 (work_left p - 10) \<le> 0")
    case True
    with te assms(2) show ?thesis
      by (auto simp: pid_inv_def)
  next
    case False
    with te obtain q a b where
      ab: "procs st1 = a @ b" "procs (schedule_one_tick st) = a @ q # b" "pid q = pid p"
      by auto
    with te have "procs st = p # a @ b" by simp
    with assms(2) ab te show ?thesis
      by (auto simp: pid_inv_def)
  qed
qed


lemma tick_level_back:
  assumes "sim_inv st" and "q \<in> set (procs (schedule_one_tick st))"
  shows "\<exists>p \<in> set (procs st). pid p = pid q \<and> level p \<le> level q"
proof (cases "pick st")
  case None
  then have "schedule_one_tick st = st\<lparr>out := out st @ [Idle_consumed 10]\<rparr>"
    by (simp add: pick_None tick_idle)
  with assms(2) show ?thesis
    by (auto simp: procs_def)
next
  case (Some x)
  then obtain p qid st1 where pk: "pick st = Some (p, qid, st1)"
    by (cases x) auto
  note te = tick_effect [OF assms(1) pk]
  show ?thesis
  proof (cases "int32 (work_left p - 10) \<le> 0")
    case True
    with te assms(2) show ?thesis by auto
  next
    case False
    with te obtain q' a b where
      ab: "procs st1 = a @ b" "procs (schedule_one_tick st) = a @ q' # b" "pid q' = pid p"
        "level p \<le> level q'"
      by auto
    with te have "procs st = p # a @ b" by simp
    with assms(2) ab show ?thesis
      by auto
  qed
qed


lemma pid_inv_after:
  "sim_inv (globals d) \<Longrightarrow> pid_inv (globals d) \<Longrightarrow> pid_inv (globals (after_iterations n d))"
proof (induction n arbitrary: d)
  case 0
  then show ?case by simp
next
  case (Suc n)
  show ?case
  proof (cases "iteration d")
    case (Break d')
    with Suc.prems show ?thesis
      by (simp add: iteration_globals(1) [OF Break])
  next
    case (Continue d')
    then have g: "globals d' = schedule_one_tick (globals d)"
      by (rule iteration_globals(2))
    with Suc.prems have "sim_inv (globals d')" "pid_inv (globals d')"
      by (simp_all add: sim_inv_tick pid_inv_tick)
    from Suc.IH [OF this] Continue show ?thesis by simp
  qed
qed

lemma level_back_after:
  assumes "sim_inv (globals d)" and "q \<in> set (procs (globals (after_iterations (n + k) d)))"
  shows "\<exists>p \<in> set (procs (globals (after_iterations n d))). pid p = pid q \<and> level p \<le> level q"
  using assms
proof (induction n arbitrary: d)
  case 0
  then show ?case
  proof (induction k arbitrary: d q)
    case 0
    then show ?case by auto
  next
    case (Suc k)
    show ?case
    proof (cases "iteration d")
      case (Break d')
      with Suc.prems show ?thesis
        by (auto simp: iteration_globals(1) [OF Break])
    next
      case (Continue d')
      then have g: "globals d' = schedule_one_tick (globals d)"
        by (rule iteration_globals(2))
      with Suc.prems(1) have inv': "sim_inv (globals d')"
        by (simp add: sim_inv_tick)
      from Suc.prems(2) Continue have "q \<in> set (procs (globals (after_iterations (0 + k) d')))"
        by simp
      from Suc.IH [OF inv' this] obtain p' where
        p': "p' \<in> set (procs (globals d'))" "pid p' = pid q" "level p' \<le> level q"
        by auto
      from tick_level_back [OF Suc.prems(1)] p'(1) g obtain p where
        "p \<in> set (procs (globals d))" "pid p = pid p'" "level p \<le> level p'"
        by auto
      with p' show ?thesis by auto
    qed
  qed
next
  case (Suc n)
  show ?case
  proof (cases "iteration d")
    case (Break d')
    with Suc.prems show ?thesis by auto
  next
    case (Continue d')
    then have g: "globals d' = schedule_one_tick (globals d)"
      by (rule iteration_globals(2))
    with Suc.prems(1) have inv': "sim_inv (globals d')"
      by (simp add: sim_inv_tick)
    from Suc.prems(2) Continue have "q \<in> set (procs (globals (after_iterations (n + k) d')))"
      by simp
    from Suc.IH [OF inv' this] Continue show ?thesis by simp
  qed
qed

lemma pid_inv_new_proc:
  assumes "pid_inv st" and "next_pid st < 2147483647"
  shows "pid_inv (new_proc nm ms st) \<and> next_pid (new_proc nm ms st) = next_pid st + 1"
proof -
  let ?p = "\<lparr>pid = next_pid st, name = take 31 nm, work_left = ms, ticks_left = Q_L0, level = 0\<rparr>"
  from assms(1) have pos: "0 < next_pid st"
    and old: "\<And>p. p \<in> set (procs st) \<Longrightarrow> 0 < pid p \<and> pid p < next_pid st"
    and dist: "distinct (map pid (L0 st @ L1 st @ L2 st))"
    by (simp_all add: pid_inv_def procs_def)
  from pos assms(2) have "int32 (next_pid st + 1) = next_pid st + 1"
    by (intro int32_id) linarith+
  then have n: "next_pid (new_proc nm ms st) = next_pid st + 1"
    by (simp add: new_proc_def)
  have pr: "procs (new_proc nm ms st) = L0 st @ ?p # L1 st @ L2 st"
    by (simp add: new_proc_def procs_def q_push_def)
  have fresh: "next_pid st \<notin> pid ` set (L0 st @ L1 st @ L2 st)"
    using old by (fastforce simp: procs_def)
  have d: "distinct (map pid (procs (new_proc nm ms st)))"
    using dist fresh unfolding pr by auto
  have b: "0 < pid p \<and> pid p < next_pid (new_proc nm ms st)"
    if "p \<in> set (procs (new_proc nm ms st))" for p
  proof -
    from that have "p = ?p \<or> p \<in> set (procs st)"
      unfolding pr by (auto simp: procs_def)
    then show ?thesis
    proof
      assume "p = ?p"
      with pos n show ?thesis by simp
    next
      assume "p \<in> set (procs st)"
      from old [OF this] n show ?thesis by simp
    qed
  qed
  from pos n have "0 < next_pid (new_proc nm ms st)" by simp
  with d b n show ?thesis
    unfolding pid_inv_def by blast
qed

lemma spin_cmd_length:
  "take 4 s = ''spin'' \<Longrightarrow> 4 \<le> length s \<and> length (fst (spin_cmd ub s st)) \<le> length s - 4"
proof -
  assume sp: "take 4 s = ''spin''"
  then have "length (take 4 s) = length ''spin''"
    by simp
  then have "4 \<le> length s"
    by simp
  have "length (snd (parse_ms (Some 0) (dropWhile is_blank (drop 4 s))))
          \<le> length (dropWhile is_blank (drop 4 s))"
    by (rule length_parse_ms)
  also have "\<dots> \<le> length (drop 4 s)"
    by (rule length_dropWhile_le)
  also have "\<dots> = length s - 4"
    by simp
  finally have "length (fst (spin_cmd ub s st)) \<le> length s - 4"
    using sp by (simp add: spin_cmd_def Let_def)
  with \<open>4 \<le> length s\<close> show ?thesis by simp
qed

lemma pid_inv_spin_cmd:
  assumes "pid_inv st" and "next_pid st + int (length s) < 2147483648"
  shows "pid_inv (snd (spin_cmd ub s st)) \<and>
         next_pid (snd (spin_cmd ub s st)) + int (length (skip_cmd (fst (spin_cmd ub s st)))) < 2147483648"
proof (cases "take 4 s = ''spin''")
  case True
  note len = spin_cmd_length [OF True, of ub st]
  with assms(2) have np: "next_pid st < 2147483647" by linarith
  have "length (skip_cmd (fst (spin_cmd ub s st))) \<le> length (fst (spin_cmd ub s st))"
    by (rule length_skip_cmd)
  with len have "int (length (skip_cmd (fst (spin_cmd ub s st)))) + 4 \<le> int (length s)"
    by linarith
  with assms(2) have sk: "next_pid st + 1 + int (length (skip_cmd (fst (spin_cmd ub s st)))) < 2147483648"
    by linarith
  have "snd (spin_cmd ub s st) = st \<or> (\<exists>ms. snd (spin_cmd ub s st) = new_proc ''spin'' ms st)"
    by (rule spin_cmd_creates)
  then show ?thesis
  proof
    assume "snd (spin_cmd ub s st) = st"
    with assms(1) sk show ?thesis by simp
  next
    assume "\<exists>ms. snd (spin_cmd ub s st) = new_proc ''spin'' ms st"
    then obtain ms where e: "snd (spin_cmd ub s st) = new_proc ''spin'' ms st" by blast
    from pid_inv_new_proc [OF assms(1) np, of "''spin''" ms] e
    have "pid_inv (snd (spin_cmd ub s st))" "next_pid (snd (spin_cmd ub s st)) = next_pid st + 1"
      by simp_all
    with sk show ?thesis by simp
  qed
next
  case False
  then have "spin_cmd ub s st = (s, st)" by (simp add: spin_cmd_def)
  moreover have "length (skip_cmd s) \<le> length s" by (rule length_skip_cmd)
  ultimately show ?thesis using assms by simp
qed

lemma pid_inv_userinit_loop:
  "pid_inv st \<Longrightarrow> next_pid st + int (length s) < 2147483648 \<Longrightarrow> pid_inv (userinit_loop ub s st)"
proof (induction ub s st rule: userinit_loop.induct)
  case (1 ub s st)
  show ?case
  proof (cases "s = [] \<or> dropWhile is_sep s = []")
    case True
    then show ?thesis using "1.prems" by (subst userinit_loop.simps) (auto simp: Let_def)
  next
    case False
    let ?s1 = "dropWhile is_sep s"
    have "length ?s1 \<le> length s" by (rule length_dropWhile_le)
    with "1.prems" have "next_pid st + int (length ?s1) < 2147483648" by simp
    from pid_inv_spin_cmd [OF "1.prems"(1) this]
    have "pid_inv (userinit_loop ub (skip_cmd (fst (spin_cmd ub ?s1 st))) (snd (spin_cmd ub ?s1 st)))"
      using "1.IH" False by simp
    then show ?thesis using False by (subst userinit_loop.simps) (auto simp: Let_def)
  qed
qed

lemma pid_inv_start: "length cmd < 2147483647 \<Longrightarrow> pid_inv (globals (start ub cmd))"
proof -
  assume "length cmd < 2147483647"
  moreover have "next_pid sim0 = 1"
    by (simp add: sim0_def)
  ultimately have "next_pid sim0 + int (length cmd) < 2147483648"
    by linarith
  moreover have "pid_inv sim0"
    by (simp add: pid_inv_def sim0_def procs_def)
  ultimately have "pid_inv (userinit_loop ub cmd sim0)"
    by (intro pid_inv_userinit_loop)
  then show ?thesis
    by (simp add: start_def userinit_spin_def)
qed

lemma pid_inv_reachable:
  "length cmd < 2147483647 \<Longrightarrow> pid_inv (globals (after_iterations n (start ub cmd)))"
  by (intro pid_inv_after sim_inv_start pid_inv_start)


lemma parse_ms_rest: "snd (parse_ms ms s) = dropWhile is_digit s"
  by (induction s arbitrary: ms) simp_all

lemma digit_step_bound: "digit_step ms d = Some v \<Longrightarrow> v \<le> INT_MAX"
  by (auto simp: digit_step_def split: option.splits if_splits)

lemma parse_ms_bound:
  "fst (parse_ms ms s) = Some v \<Longrightarrow> (\<And>m. ms = Some m \<Longrightarrow> m \<le> INT_MAX) \<Longrightarrow> v \<le> INT_MAX"
proof (induction s arbitrary: ms)
  case Nil
  then show ?case by simp
next
  case (Cons c s)
  show ?case
  proof (cases "is_digit c")
    case True
    with Cons.prems(1) have "fst (parse_ms (digit_step ms (of_char c - 48)) s) = Some v"
      by simp
    then show ?thesis
      by (rule Cons.IH) (rule digit_step_bound)
  next
    case False
    with Cons.prems show ?thesis by simp
  qed
qed

lemma skip_cmd_split:
  "skip_cmd s = (case dropWhile (\<lambda>c. c \<noteq> CHR '';'') s of [] \<Rightarrow> [] | c # r \<Rightarrow> r)"
proof (cases "dropWhile (\<lambda>c. c \<noteq> CHR '';'') s")
  case Nil
  show ?thesis by (simp only: skip_cmd_def Let_def Nil list.case)
next
  case (Cons c r)
  then have "c = CHR '';''"
    using hd_dropWhile [of "\<lambda>c. c \<noteq> CHR '';''" s] by auto
  then show ?thesis by (simp only: skip_cmd_def Let_def Cons list.case) simp
qed

lemma dropWhile_weaker:
  "(\<And>x. Q x \<Longrightarrow> P x) \<Longrightarrow> dropWhile P (dropWhile Q xs) = dropWhile P xs"
  by (induction xs) auto

lemma blank_not_semi: "is_blank c \<Longrightarrow> c \<noteq> CHR '';''"
  by (auto simp: is_blank_def)

lemma digit_not_semi: "is_digit c \<Longrightarrow> c \<noteq> CHR '';''"
  by (auto simp: is_digit_def)

lemma spin_prefix:
  assumes "take 4 s = ''spin''"
  obtains x where "s = ''spin'' @ x" and "drop 4 s = x"
proof -
  have "take 4 s @ drop 4 s = s" by simp
  with assms have "s = ''spin'' @ drop 4 s" by simp
  then show ?thesis using that by blast
qed

lemma skip_cmd_spin_cmd: "skip_cmd (fst (spin_cmd ub s st)) = skip_cmd s"
proof (cases "take 4 s = ''spin''")
  case True
  let ?P = "\<lambda>c. c \<noteq> CHR '';''"
  from True obtain x where s: "s = ''spin'' @ x" by (rule spin_prefix)
  have "fst (spin_cmd ub s st) = dropWhile is_digit (dropWhile is_blank (drop 4 s))"
    using True by (simp add: spin_cmd_def Let_def parse_ms_rest)
  then have "dropWhile ?P (fst (spin_cmd ub s st)) =
      dropWhile ?P (dropWhile is_digit (dropWhile is_blank (drop 4 s)))"
    by simp
  also have "\<dots> = dropWhile ?P (dropWhile is_blank (drop 4 s))"
    by (rule dropWhile_weaker) (rule digit_not_semi)
  also have "\<dots> = dropWhile ?P (drop 4 s)"
    by (rule dropWhile_weaker) (rule blank_not_semi)
  also have "\<dots> = dropWhile ?P s"
    unfolding s by simp
  finally show ?thesis by (simp only: skip_cmd_split)
next
  case False
  then show ?thesis by (simp add: spin_cmd_def)
qed

lemma amounts_fit_step:
  assumes "amounts_fit s" and "s \<noteq> []" and "dropWhile is_sep s \<noteq> []"
  shows "take 4 (dropWhile is_sep s) = ''spin'' \<longrightarrow>
           fst (parse_ms (Some 0) (dropWhile is_blank (drop 4 (dropWhile is_sep s)))) \<noteq> None"
    and "amounts_fit (skip_cmd (fst (spin_cmd ub (dropWhile is_sep s) st)))"
proof -
  from assms have both: "(take 4 (dropWhile is_sep s) = ''spin'' \<longrightarrow>
           fst (parse_ms (Some 0) (dropWhile is_blank (drop 4 (dropWhile is_sep s)))) \<noteq> None) \<and>
      amounts_fit (skip_cmd (dropWhile is_sep s))"
    by (subst (asm) amounts_fit.simps) (auto simp: Let_def)
  then show "take 4 (dropWhile is_sep s) = ''spin'' \<longrightarrow>
           fst (parse_ms (Some 0) (dropWhile is_blank (drop 4 (dropWhile is_sep s)))) \<noteq> None"
    by simp
  from both show "amounts_fit (skip_cmd (fst (spin_cmd ub (dropWhile is_sep s) st)))"
    by (simp only: skip_cmd_spin_cmd)
qed

lemma spin_cmd_fit:
  assumes "take 4 s = ''spin'' \<longrightarrow> fst (parse_ms (Some 0) (dropWhile is_blank (drop 4 s))) \<noteq> None"
  shows "snd (spin_cmd ub s st) = st \<or>
         (\<exists>ms. 0 < ms \<and> ms \<le> INT_MAX \<and> snd (spin_cmd ub s st) = new_proc ''spin'' ms st)"
    and "spin_cmd ub s st = spin_cmd ub' s st"
proof -
  let ?s1 = "dropWhile is_blank (drop 4 s)"
  show "snd (spin_cmd ub s st) = st \<or>
         (\<exists>ms. 0 < ms \<and> ms \<le> INT_MAX \<and> snd (spin_cmd ub s st) = new_proc ''spin'' ms st)"
  proof (cases "take 4 s = ''spin''")
    case True
    with assms obtain v where v: "fst (parse_ms (Some 0) ?s1) = Some v"
      by blast
    then have "v \<le> INT_MAX"
      by (rule parse_ms_bound) (simp add: INT_MAX_def)
    with v show ?thesis
      by (auto simp: spin_cmd_def Let_def)
  next
    case False
    then show ?thesis by (simp add: spin_cmd_def)
  qed
  show "spin_cmd ub s st = spin_cmd ub' s st"
  proof (cases "take 4 s = ''spin''")
    case True
    with assms obtain v where v: "fst (parse_ms (Some 0) ?s1) = Some v"
      by blast
    then show ?thesis
      by (simp add: spin_cmd_def Let_def)
  next
    case False
    then show ?thesis by (simp add: spin_cmd_def)
  qed
qed

lemma userinit_loop_fit:
  "amounts_fit s \<Longrightarrow> userinit_loop ub s st = userinit_loop ub' s st"
proof (induction ub s st rule: userinit_loop.induct)
  case (1 ub s st)
  let ?s1 = "dropWhile is_sep s"
  show ?case
  proof (cases "s = [] \<or> ?s1 = []")
    case True
    then show ?thesis
      by (subst userinit_loop.simps, subst (2) userinit_loop.simps) (auto simp: Let_def)
  next
    case False
    then have ne: "s \<noteq> []" "?s1 \<noteq> []" by simp_all
    note st = amounts_fit_step [OF "1.prems" ne]
    have same: "spin_cmd ub ?s1 st = spin_cmd ub' ?s1 st"
      using st(1) by (rule spin_cmd_fit(2))
    from False st(2) [of ub st]
    have "userinit_loop ub (skip_cmd (fst (spin_cmd ub ?s1 st))) (snd (spin_cmd ub ?s1 st)) =
        userinit_loop ub' (skip_cmd (fst (spin_cmd ub ?s1 st))) (snd (spin_cmd ub ?s1 st))"
      by (intro "1.IH") simp_all
    then show ?thesis
      using False same
      by (subst userinit_loop.simps, subst (2) userinit_loop.simps) (auto simp: Let_def)
  qed
qed

lemma start_fit: "amounts_fit cmd \<Longrightarrow> start ub cmd = start ub' cmd"
  by (simp add: start_def userinit_spin_def userinit_loop_fit [of cmd ub sim0 ub'])








text \<open>
  Without \<open>amounts_fit\<close> the work of a resident process need not be positive, and a
  tick need not take 10 ms off it: with \<open>min_process\<close> the command
  \<open>spin 2147483648\<close> starts a process with work \<open>-2147483648\<close>, and its first tick
  wraps the work to \<open>2147483638\<close> and demotes it instead of ending it.
\<close>

lemma overflow_run:
  "\<not> amounts_fit ''spin 2147483648'' \<and>
   procs (globals (start min_process ''spin 2147483648'')) =
     [\<lparr>pid = 1, name = ''spin'', work_left = - 2147483648, ticks_left = 1, level = 0\<rparr>] \<and>
   procs (globals (after_iterations 1 (start min_process ''spin 2147483648''))) =
     [\<lparr>pid = 1, name = ''spin'', work_left = 2147483638, ticks_left = 2, level = 1\<rparr>]"
  by code_simp

section \<open>The claims\<close>

text \<open>
  The states of the simulation are those of the driver after any number of loop
  iterations. Each theorem holds for every \<open>ub\<close>, that is, however an overflow in
  the loader comes out; the two that are about the work of the processes assume
  \<open>amounts_fit\<close>.
\<close>



text \<open>
  C5. At all times every live process has \<open>0 \<le> ticks_left \<le> quantum level\<close>, with
  the quanta 1, 2 and 4 of levels 0, 1 and 2: for the processes resident in the
  queues of any state the driver reaches, and for the process being dispatched, both
  when it is selected and after the tick is accounted.
\<close>

theorem quantum_bound:
  assumes "st = globals (after_iterations n (start ub cmd))"
  shows "(\<forall>p \<in> set (procs st). 0 \<le> ticks_left p \<and> ticks_left p \<le> quantum (level p)) \<and>
         (\<forall>p qid st1. pick st = Some (p, qid, st1) \<longrightarrow>
            0 \<le> ticks_left p \<and> ticks_left p \<le> quantum (level p) \<and>
            0 \<le> ticks_left (fst (on_tick p st1)) \<and>
            ticks_left (fst (on_tick p st1)) \<le> quantum (level (fst (on_tick p st1))))"
proof -
  have inv: "sim_inv st"
    unfolding assms by (rule sim_inv_reachable)
  have res: "0 \<le> ticks_left p \<and> ticks_left p \<le> quantum (level p)" if "p \<in> set (procs st)" for p
    using sim_inv_resident [OF inv that] by simp
  have run: "0 \<le> ticks_left p \<and> ticks_left p \<le> quantum (level p) \<and>
            0 \<le> ticks_left (fst (on_tick p st1)) \<and>
            ticks_left (fst (on_tick p st1)) \<le> quantum (level (fst (on_tick p st1)))"
    if "pick st = Some (p, qid, st1)" for p qid st1
  proof -
    from that have "p \<in> set (procs st)"
      by (auto simp: pick_inv [OF inv] procs_def split: list.splits)
    from sim_inv_resident [OF inv this]
    have b: "1 \<le> ticks_left p" "ticks_left p \<le> quantum (level p)" "quantum (level p) \<le> 4"
      by (auto simp: quantum_def Q_L0_def Q_L1_def Q_L2_def)
    then have "int32 (ticks_left p - 1) = ticks_left p - 1"
      by (simp add: int32_id)
    with b show ?thesis
      by (simp add: on_tick_def Let_def)
  qed
  from res run show ?thesis by blast
qed

theorem quantum_bound_witness:
  "pick (globals (after_iterations 1 (start no_process ''spin 30''))) =
     Some (\<lparr>pid = 1, name = ''spin'', work_left = 20, ticks_left = 2, level = 1\<rparr>, 1,
           \<lparr>L0 = [], L1 = [], L2 = [], next_pid = 2, out = [Consumed ''spin'' 1 10 0]\<rparr>)
   \<and> \<lparr>pid = 1, name = ''spin'', work_left = 20, ticks_left = 2, level = 1\<rparr>
        \<in> set (procs (globals (after_iterations 1 (start no_process ''spin 30''))))
   \<and> ticks_left \<lparr>pid = 1, name = ''spin'', work_left = 20, ticks_left = 2, level = 1\<rparr>
        \<le> quantum (level \<lparr>pid = 1, name = ''spin'', work_left = 20, ticks_left = 2, level = 1\<rparr>)
   \<and> 0 \<le> ticks_left (fst (on_tick \<lparr>pid = 1, name = ''spin'', work_left = 20, ticks_left = 2, level = 1\<rparr>
        \<lparr>L0 = [], L1 = [], L2 = [], next_pid = 2, out = [Consumed ''spin'' 1 10 0]\<rparr>))"
proof -
  have h1: "pick (globals (after_iterations 1 (start no_process ''spin 30''))) =
     Some (\<lparr>pid = 1, name = ''spin'', work_left = 20, ticks_left = 2, level = 1\<rparr>, 1,
           \<lparr>L0 = [], L1 = [], L2 = [], next_pid = 2, out = [Consumed ''spin'' 1 10 0]\<rparr>)"
    by code_simp
  have h2: "\<lparr>pid = 1, name = ''spin'', work_left = 20, ticks_left = 2, level = 1\<rparr>
        \<in> set (procs (globals (after_iterations 1 (start no_process ''spin 30''))))"
    by code_simp
  from quantum_bound [OF refl, of 1 no_process "''spin 30''"] h1 h2 show ?thesis
    by blast
qed

text \<open>
  C6. The quantum entry guard never fires: in any state the driver reaches, the
  process that \<open>pick\<close> selects is the head of its queue exactly as it was stored
  (the guard left it unchanged), and its \<open>ticks_left\<close> is positive.
\<close>

theorem quantum_guard_unreachable:
  assumes "st = globals (after_iterations n (start ub cmd))"
    and "pick st = Some (p, qid, st1)"
  shows "q_pop (queue_at st qid) = Some (p, queue_at st1 qid) \<and> 0 < ticks_left p \<and>
         quantum_guard (quantum qid) p = p"
proof -
  have inv: "sim_inv st"
    unfolding assms(1) by (rule sim_inv_reachable)
  from assms(2) have pop: "q_pop (queue_at st qid) = Some (p, queue_at st1 qid)"
    by (auto simp: pick_inv [OF inv] q_pop_def queue_at_def split: list.splits)
  then have "p \<in> set (procs st)"
    by (auto simp: q_pop_def queue_at_def procs_def split: list.splits if_splits)
  from sim_inv_resident [OF inv this] have "0 < ticks_left p"
    by simp
  with pop show ?thesis
    by (simp add: quantum_guard_def)
qed

theorem quantum_guard_unreachable_witness:
  "pick (globals (after_iterations 1 (start no_process ''spin 30''))) =
     Some (\<lparr>pid = 1, name = ''spin'', work_left = 20, ticks_left = 2, level = 1\<rparr>, 1,
           \<lparr>L0 = [], L1 = [], L2 = [], next_pid = 2, out = [Consumed ''spin'' 1 10 0]\<rparr>)
   \<and> q_pop (queue_at (globals (after_iterations 1 (start no_process ''spin 30''))) 1) =
       Some (\<lparr>pid = 1, name = ''spin'', work_left = 20, ticks_left = 2, level = 1\<rparr>, [])
   \<and> quantum_guard (quantum 1) \<lparr>pid = 1, name = ''spin'', work_left = 20, ticks_left = 2, level = 1\<rparr>
       = \<lparr>pid = 1, name = ''spin'', work_left = 20, ticks_left = 2, level = 1\<rparr>"
proof -
  have h: "pick (globals (after_iterations 1 (start no_process ''spin 30''))) =
     Some (\<lparr>pid = 1, name = ''spin'', work_left = 20, ticks_left = 2, level = 1\<rparr>, 1,
           \<lparr>L0 = [], L1 = [], L2 = [], next_pid = 2, out = [Consumed ''spin'' 1 10 0]\<rparr>)"
    by code_simp
  from quantum_guard_unreachable [OF refl h] h show ?thesis
    by (simp add: queue_at_def)
qed

text \<open>
  C1. On every tick with a non-empty run queue the dispatched process is the head of
  the lowest-numbered non-empty queue: the head of \<open>L0\<close> whenever \<open>L0\<close> is non-empty,
  the head of \<open>L1\<close> when \<open>L0\<close> is empty, the head of \<open>L2\<close> when \<open>L0\<close> and \<open>L1\<close>
  are empty. That process is popped from its queue, and the first line the tick
  prints is its running line, with that level.
\<close>

theorem dispatch_priority:
  assumes "st = globals (after_iterations n (start ub cmd))"
  shows "(L0 st \<noteq> [] \<longrightarrow>
            pick st = Some (hd (L0 st), 0, st\<lparr>L0 := tl (L0 st)\<rparr>) \<and>
            (\<exists>rest. out (schedule_one_tick st) =
               out st @ Consumed (name (hd (L0 st))) (pid (hd (L0 st))) TICK_MS 0 # rest)) \<and>
         (L0 st = [] \<and> L1 st \<noteq> [] \<longrightarrow>
            pick st = Some (hd (L1 st), 1, st\<lparr>L1 := tl (L1 st)\<rparr>) \<and>
            (\<exists>rest. out (schedule_one_tick st) =
               out st @ Consumed (name (hd (L1 st))) (pid (hd (L1 st))) TICK_MS 1 # rest)) \<and>
         (L0 st = [] \<and> L1 st = [] \<and> L2 st \<noteq> [] \<longrightarrow>
            pick st = Some (hd (L2 st), 2, st\<lparr>L2 := tl (L2 st)\<rparr>) \<and>
            (\<exists>rest. out (schedule_one_tick st) =
               out st @ Consumed (name (hd (L2 st))) (pid (hd (L2 st))) TICK_MS 2 # rest))"
proof -
  have inv: "sim_inv st"
    unfolding assms by (rule sim_inv_reachable)
  have c0: "pick st = Some (hd (L0 st), 0, st\<lparr>L0 := tl (L0 st)\<rparr>) \<and>
            (\<exists>rest. out (schedule_one_tick st) =
               out st @ Consumed (name (hd (L0 st))) (pid (hd (L0 st))) TICK_MS 0 # rest)"
    if "L0 st \<noteq> []"
  proof -
    from that obtain p r where q: "L0 st = p # r" by (cases "L0 st") auto
    show ?thesis
      by (simp add: pick_inv [OF inv] tick_L0 [OF inv q] q TICK_MS_def)
  qed
  have c1: "pick st = Some (hd (L1 st), 1, st\<lparr>L1 := tl (L1 st)\<rparr>) \<and>
            (\<exists>rest. out (schedule_one_tick st) =
               out st @ Consumed (name (hd (L1 st))) (pid (hd (L1 st))) TICK_MS 1 # rest)"
    if "L0 st = []" "L1 st \<noteq> []"
  proof -
    from that obtain p r where q: "L1 st = p # r" by (cases "L1 st") auto
    show ?thesis
      by (simp add: pick_inv [OF inv] tick_L1 [OF inv that(1) q] that(1) q TICK_MS_def)
  qed
  have c2: "pick st = Some (hd (L2 st), 2, st\<lparr>L2 := tl (L2 st)\<rparr>) \<and>
            (\<exists>rest. out (schedule_one_tick st) =
               out st @ Consumed (name (hd (L2 st))) (pid (hd (L2 st))) TICK_MS 2 # rest)"
    if "L0 st = []" "L1 st = []" "L2 st \<noteq> []"
  proof -
    from that obtain p r where q: "L2 st = p # r" by (cases "L2 st") auto
    show ?thesis
      by (simp add: pick_inv [OF inv] tick_L2 [OF inv that(1,2) q] that(1,2) q TICK_MS_def)
  qed
  from c0 c1 c2 show ?thesis by blast
qed

theorem dispatch_priority_witness:
  "(L0 (globals (after_iterations 0 (start no_process ''spin 80''))) \<noteq> [] \<and>
    pick (globals (after_iterations 0 (start no_process ''spin 80''))) =
      Some (hd (L0 (globals (after_iterations 0 (start no_process ''spin 80'')))), 0,
            (globals (after_iterations 0 (start no_process ''spin 80'')))
              \<lparr>L0 := tl (L0 (globals (after_iterations 0 (start no_process ''spin 80''))))\<rparr>)) \<and>
   (L0 (globals (after_iterations 1 (start no_process ''spin 80''))) = [] \<and>
    L1 (globals (after_iterations 1 (start no_process ''spin 80''))) \<noteq> [] \<and>
    pick (globals (after_iterations 1 (start no_process ''spin 80''))) =
      Some (hd (L1 (globals (after_iterations 1 (start no_process ''spin 80'')))), 1,
            (globals (after_iterations 1 (start no_process ''spin 80'')))
              \<lparr>L1 := tl (L1 (globals (after_iterations 1 (start no_process ''spin 80''))))\<rparr>)) \<and>
   (L0 (globals (after_iterations 3 (start no_process ''spin 80''))) = [] \<and>
    L1 (globals (after_iterations 3 (start no_process ''spin 80''))) = [] \<and>
    L2 (globals (after_iterations 3 (start no_process ''spin 80''))) \<noteq> [] \<and>
    pick (globals (after_iterations 3 (start no_process ''spin 80''))) =
      Some (hd (L2 (globals (after_iterations 3 (start no_process ''spin 80'')))), 2,
            (globals (after_iterations 3 (start no_process ''spin 80'')))
              \<lparr>L2 := tl (L2 (globals (after_iterations 3 (start no_process ''spin 80''))))\<rparr>))"
proof -
  have h0: "L0 (globals (after_iterations 0 (start no_process ''spin 80''))) \<noteq> []"
    by code_simp
  have h1: "L0 (globals (after_iterations 1 (start no_process ''spin 80''))) = []"
    "L1 (globals (after_iterations 1 (start no_process ''spin 80''))) \<noteq> []"
    by code_simp+
  have h2: "L0 (globals (after_iterations 3 (start no_process ''spin 80''))) = []"
    "L1 (globals (after_iterations 3 (start no_process ''spin 80''))) = []"
    "L2 (globals (after_iterations 3 (start no_process ''spin 80''))) \<noteq> []"
    by code_simp+
  from dispatch_priority [OF refl, of 0 no_process "''spin 80''"] h0
    dispatch_priority [OF refl, of 1 no_process "''spin 80''"] h1
    dispatch_priority [OF refl, of 3 no_process "''spin 80''"] h2
  show ?thesis
    by blast
qed

text \<open>
  C2. A dispatched process \<open>p\<close> that does not exit on the tick (\<open>p1\<close> is the process
  after the tick is accounted): with \<open>ticks_left > 0\<close> it is appended to the queue of
  its own level, level unchanged; with \<open>ticks_left = 0\<close> below the last level it
  gets \<open>level + 1\<close> and that level's quantum and is appended to that level's queue;
  with \<open>ticks_left = 0\<close> at the last level it keeps the level, gets that level's
  quantum and is appended to that level's queue.
\<close>

theorem requeue_rule:
  assumes "st = globals (after_iterations n (start ub cmd))"
    and "pick st = Some (p, qid, st1)"
    and "p1 = fst (on_tick p st1)"
    and "\<not> work_left p1 \<le> 0"
  shows "level p = qid \<and> level p1 = level p \<and> (0 < ticks_left p1 \<or> ticks_left p1 = 0) \<and>
    (0 < ticks_left p1 \<longrightarrow>
       queue_at (schedule_one_tick st) (level p) = queue_at st1 (level p) @ [p1]) \<and>
    (ticks_left p1 = 0 \<and> level p \<noteq> 2 \<longrightarrow>
       queue_at (schedule_one_tick st) (level p + 1) =
         queue_at st1 (level p + 1) @
           [p1\<lparr>level := level p + 1, ticks_left := quantum (level p + 1)\<rparr>] \<and>
       queue_at (schedule_one_tick st) (level p) = queue_at st1 (level p)) \<and>
    (ticks_left p1 = 0 \<and> level p = 2 \<longrightarrow>
       queue_at (schedule_one_tick st) (level p) =
         queue_at st1 (level p) @ [p1\<lparr>ticks_left := quantum (level p)\<rparr>])"
proof -
  have inv: "sim_inv st"
    unfolding assms(1) by (rule sim_inv_reachable)
  show ?thesis
  proof (cases "L0 st")
    case (Cons h r)
    with inv have ok: "proc_ok 0 h" by (simp add: sim_inv_def)
    from assms(2) Cons have sel: "p = h" "qid = 0" "st1 = st\<lparr>L0 := r\<rparr>"
      by (simp_all add: pick_inv [OF inv])
    from ok have "ticks_left h = 1" "level h = 0"
      by (auto simp: proc_ok_def quantum_def Q_L0_def)
    with assms(3,4) sel show ?thesis
      by (simp add: tick_L0 [OF inv Cons] on_tick_inv [OF ok] queue_at_def quantum_def Q_L1_def)
  next
    case Nil
    note n0 = Nil
    show ?thesis
    proof (cases "L1 st")
      case (Cons h r)
      with inv have ok: "proc_ok 1 h" by (simp add: sim_inv_def)
      from assms(2) Cons n0 have sel: "p = h" "qid = 1" "st1 = st\<lparr>L1 := r\<rparr>"
        by (simp_all add: pick_inv [OF inv])
      from ok have "1 \<le> ticks_left h" "level h = 1"
        by (auto simp: proc_ok_def)
      with assms(3,4) sel show ?thesis
        by (auto simp: tick_L1 [OF inv n0 Cons] on_tick_inv [OF ok] queue_at_def quantum_def Q_L2_def)
    next
      case Nil
      note n1 = Nil
      show ?thesis
      proof (cases "L2 st")
        case (Cons h r)
        with inv have ok: "proc_ok 2 h" by (simp add: sim_inv_def)
        from assms(2) Cons n0 n1 have sel: "p = h" "qid = 2" "st1 = st\<lparr>L2 := r\<rparr>"
          by (simp_all add: pick_inv [OF inv])
        from ok have "1 \<le> ticks_left h" "level h = 2"
          by (auto simp: proc_ok_def)
        with assms(3,4) sel show ?thesis
          by (auto simp: tick_L2 [OF inv n0 n1 Cons] on_tick_inv [OF ok] queue_at_def quantum_def Q_L2_def)
      next
        case Nil
        with assms(2) n0 n1 show ?thesis
          by (simp add: pick_inv [OF inv])
      qed
    qed
  qed
qed

theorem requeue_rule_witness:
  "(pick (globals (after_iterations 0 (start no_process ''spin 80''))) =
      Some (\<lparr>pid = 1, name = ''spin'', work_left = 80, ticks_left = 1, level = 0\<rparr>, 0,
        \<lparr>L0 = [], L1 = [], L2 = [], next_pid = 2, out = []\<rparr>) \<and>
    \<not> work_left (fst (on_tick \<lparr>pid = 1, name = ''spin'', work_left = 80, ticks_left = 1, level = 0\<rparr>
        \<lparr>L0 = [], L1 = [], L2 = [], next_pid = 2, out = []\<rparr>)) \<le> 0 \<and>
    ticks_left (fst (on_tick \<lparr>pid = 1, name = ''spin'', work_left = 80, ticks_left = 1, level = 0\<rparr>
        \<lparr>L0 = [], L1 = [], L2 = [], next_pid = 2, out = []\<rparr>)) = 0 \<and> level \<lparr>pid = 1, name = ''spin'', work_left = 80, ticks_left = 1, level = 0\<rparr> \<noteq> 2 \<and>
    queue_at (schedule_one_tick (globals (after_iterations 0 (start no_process ''spin 80'')))) (level \<lparr>pid = 1, name = ''spin'', work_left = 80, ticks_left = 1, level = 0\<rparr> + 1) =
      queue_at \<lparr>L0 = [], L1 = [], L2 = [], next_pid = 2, out = []\<rparr> (level \<lparr>pid = 1, name = ''spin'', work_left = 80, ticks_left = 1, level = 0\<rparr> + 1) @
        [(fst (on_tick \<lparr>pid = 1, name = ''spin'', work_left = 80, ticks_left = 1, level = 0\<rparr>
        \<lparr>L0 = [], L1 = [], L2 = [], next_pid = 2, out = []\<rparr>))\<lparr>level := level \<lparr>pid = 1, name = ''spin'', work_left = 80, ticks_left = 1, level = 0\<rparr> + 1, ticks_left := quantum (level \<lparr>pid = 1, name = ''spin'', work_left = 80, ticks_left = 1, level = 0\<rparr> + 1)\<rparr>]) \<and>
   (pick (globals (after_iterations 1 (start no_process ''spin 80''))) =
      Some (\<lparr>pid = 1, name = ''spin'', work_left = 70, ticks_left = 2, level = 1\<rparr>, 1,
        \<lparr>L0 = [], L1 = [], L2 = [], next_pid = 2, out = [Consumed ''spin'' 1 10 0]\<rparr>) \<and>
    \<not> work_left (fst (on_tick \<lparr>pid = 1, name = ''spin'', work_left = 70, ticks_left = 2, level = 1\<rparr>
        \<lparr>L0 = [], L1 = [], L2 = [], next_pid = 2, out = [Consumed ''spin'' 1 10 0]\<rparr>)) \<le> 0 \<and>
    0 < ticks_left (fst (on_tick \<lparr>pid = 1, name = ''spin'', work_left = 70, ticks_left = 2, level = 1\<rparr>
        \<lparr>L0 = [], L1 = [], L2 = [], next_pid = 2, out = [Consumed ''spin'' 1 10 0]\<rparr>)) \<and>
    queue_at (schedule_one_tick (globals (after_iterations 1 (start no_process ''spin 80'')))) (level \<lparr>pid = 1, name = ''spin'', work_left = 70, ticks_left = 2, level = 1\<rparr>) =
      queue_at \<lparr>L0 = [], L1 = [], L2 = [], next_pid = 2, out = [Consumed ''spin'' 1 10 0]\<rparr> (level \<lparr>pid = 1, name = ''spin'', work_left = 70, ticks_left = 2, level = 1\<rparr>) @ [fst (on_tick \<lparr>pid = 1, name = ''spin'', work_left = 70, ticks_left = 2, level = 1\<rparr>
        \<lparr>L0 = [], L1 = [], L2 = [], next_pid = 2, out = [Consumed ''spin'' 1 10 0]\<rparr>)]) \<and>
   (pick (globals (after_iterations 6 (start no_process ''spin 80''))) =
      Some (\<lparr>pid = 1, name = ''spin'', work_left = 20, ticks_left = 1, level = 2\<rparr>, 2,
        \<lparr>L0 = [], L1 = [], L2 = [], next_pid = 2, out = [Consumed ''spin'' 1 10 0, Consumed ''spin'' 1 10 1, Consumed ''spin'' 1 10 1, Consumed ''spin'' 1 10 2, Consumed ''spin'' 1 10 2, Consumed ''spin'' 1 10 2]\<rparr>) \<and>
    \<not> work_left (fst (on_tick \<lparr>pid = 1, name = ''spin'', work_left = 20, ticks_left = 1, level = 2\<rparr>
        \<lparr>L0 = [], L1 = [], L2 = [], next_pid = 2, out = [Consumed ''spin'' 1 10 0, Consumed ''spin'' 1 10 1, Consumed ''spin'' 1 10 1, Consumed ''spin'' 1 10 2, Consumed ''spin'' 1 10 2, Consumed ''spin'' 1 10 2]\<rparr>)) \<le> 0 \<and>
    ticks_left (fst (on_tick \<lparr>pid = 1, name = ''spin'', work_left = 20, ticks_left = 1, level = 2\<rparr>
        \<lparr>L0 = [], L1 = [], L2 = [], next_pid = 2, out = [Consumed ''spin'' 1 10 0, Consumed ''spin'' 1 10 1, Consumed ''spin'' 1 10 1, Consumed ''spin'' 1 10 2, Consumed ''spin'' 1 10 2, Consumed ''spin'' 1 10 2]\<rparr>)) = 0 \<and> level \<lparr>pid = 1, name = ''spin'', work_left = 20, ticks_left = 1, level = 2\<rparr> = 2 \<and>
    queue_at (schedule_one_tick (globals (after_iterations 6 (start no_process ''spin 80'')))) (level \<lparr>pid = 1, name = ''spin'', work_left = 20, ticks_left = 1, level = 2\<rparr>) =
      queue_at \<lparr>L0 = [], L1 = [], L2 = [], next_pid = 2, out = [Consumed ''spin'' 1 10 0, Consumed ''spin'' 1 10 1, Consumed ''spin'' 1 10 1, Consumed ''spin'' 1 10 2, Consumed ''spin'' 1 10 2, Consumed ''spin'' 1 10 2]\<rparr> (level \<lparr>pid = 1, name = ''spin'', work_left = 20, ticks_left = 1, level = 2\<rparr>) @
        [(fst (on_tick \<lparr>pid = 1, name = ''spin'', work_left = 20, ticks_left = 1, level = 2\<rparr>
        \<lparr>L0 = [], L1 = [], L2 = [], next_pid = 2, out = [Consumed ''spin'' 1 10 0, Consumed ''spin'' 1 10 1, Consumed ''spin'' 1 10 1, Consumed ''spin'' 1 10 2, Consumed ''spin'' 1 10 2, Consumed ''spin'' 1 10 2]\<rparr>))\<lparr>ticks_left := quantum (level \<lparr>pid = 1, name = ''spin'', work_left = 20, ticks_left = 1, level = 2\<rparr>)\<rparr>])"
proof -
  have p0: "pick (globals (after_iterations 0 (start no_process ''spin 80''))) =
      Some (\<lparr>pid = 1, name = ''spin'', work_left = 80, ticks_left = 1, level = 0\<rparr>, 0,
        \<lparr>L0 = [], L1 = [], L2 = [], next_pid = 2, out = []\<rparr>)"
    by code_simp
  have w0: "\<not> work_left (fst (on_tick \<lparr>pid = 1, name = ''spin'', work_left = 80, ticks_left = 1, level = 0\<rparr>
        \<lparr>L0 = [], L1 = [], L2 = [], next_pid = 2, out = []\<rparr>)) \<le> 0"
    by code_simp
  have t0: "ticks_left (fst (on_tick \<lparr>pid = 1, name = ''spin'', work_left = 80, ticks_left = 1, level = 0\<rparr>
        \<lparr>L0 = [], L1 = [], L2 = [], next_pid = 2, out = []\<rparr>)) = 0 \<and> level \<lparr>pid = 1, name = ''spin'', work_left = 80, ticks_left = 1, level = 0\<rparr> \<noteq> 2"
    by code_simp
  note r0 = requeue_rule [OF refl p0 refl w0]
  have p1: "pick (globals (after_iterations 1 (start no_process ''spin 80''))) =
      Some (\<lparr>pid = 1, name = ''spin'', work_left = 70, ticks_left = 2, level = 1\<rparr>, 1,
        \<lparr>L0 = [], L1 = [], L2 = [], next_pid = 2, out = [Consumed ''spin'' 1 10 0]\<rparr>)"
    by code_simp
  have w1: "\<not> work_left (fst (on_tick \<lparr>pid = 1, name = ''spin'', work_left = 70, ticks_left = 2, level = 1\<rparr>
        \<lparr>L0 = [], L1 = [], L2 = [], next_pid = 2, out = [Consumed ''spin'' 1 10 0]\<rparr>)) \<le> 0"
    by code_simp
  have t1: "0 < ticks_left (fst (on_tick \<lparr>pid = 1, name = ''spin'', work_left = 70, ticks_left = 2, level = 1\<rparr>
        \<lparr>L0 = [], L1 = [], L2 = [], next_pid = 2, out = [Consumed ''spin'' 1 10 0]\<rparr>))"
    by code_simp
  note r1 = requeue_rule [OF refl p1 refl w1]
  have p6: "pick (globals (after_iterations 6 (start no_process ''spin 80''))) =
      Some (\<lparr>pid = 1, name = ''spin'', work_left = 20, ticks_left = 1, level = 2\<rparr>, 2,
        \<lparr>L0 = [], L1 = [], L2 = [], next_pid = 2, out = [Consumed ''spin'' 1 10 0, Consumed ''spin'' 1 10 1, Consumed ''spin'' 1 10 1, Consumed ''spin'' 1 10 2, Consumed ''spin'' 1 10 2, Consumed ''spin'' 1 10 2]\<rparr>)"
    by code_simp
  have w6: "\<not> work_left (fst (on_tick \<lparr>pid = 1, name = ''spin'', work_left = 20, ticks_left = 1, level = 2\<rparr>
        \<lparr>L0 = [], L1 = [], L2 = [], next_pid = 2, out = [Consumed ''spin'' 1 10 0, Consumed ''spin'' 1 10 1, Consumed ''spin'' 1 10 1, Consumed ''spin'' 1 10 2, Consumed ''spin'' 1 10 2, Consumed ''spin'' 1 10 2]\<rparr>)) \<le> 0"
    by code_simp
  have t6: "ticks_left (fst (on_tick \<lparr>pid = 1, name = ''spin'', work_left = 20, ticks_left = 1, level = 2\<rparr>
        \<lparr>L0 = [], L1 = [], L2 = [], next_pid = 2, out = [Consumed ''spin'' 1 10 0, Consumed ''spin'' 1 10 1, Consumed ''spin'' 1 10 1, Consumed ''spin'' 1 10 2, Consumed ''spin'' 1 10 2, Consumed ''spin'' 1 10 2]\<rparr>)) = 0 \<and> level \<lparr>pid = 1, name = ''spin'', work_left = 20, ticks_left = 1, level = 2\<rparr> = 2"
    by code_simp
  note r6 = requeue_rule [OF refl p6 refl w6]
  from r0 p0 w0 t0 r1 p1 w1 t1 r6 p6 w6 t6 show ?thesis
    by blast
qed



text \<open>
  C8, as amended. On each pass of the loop that starts below the tick cap and before
  the idle threshold was exceeded: if all queues are empty the idle counter and the
  tick counter are incremented and, unless the incremented idle counter exceeds 10
  (then the loop ends without output), one idle line is printed; if some queue is
  non-empty the idle counter is reset to 0, the tick counter is incremented and
  \<open>schedule_one_tick\<close> is called once. The idle line reads
  \<open>Process idle 0 has consumed 10 ms in IDLE\<close>. For a command line that creates no
  process (the empty one among them) the whole output is ten idle lines.
\<close>

theorem driver_iteration:
  assumes "d = after_iterations n (start ub cmd)" and "ticks d \<le> 100000" and "idle d \<le> 10"
  shows "(L0 (globals d) = [] \<and> L1 (globals d) = [] \<and> L2 (globals d) = [] \<longrightarrow>
           iteration d =
             (if 10 < idle d + 1 then Break (d\<lparr>idle := idle d + 1, ticks := ticks d + 1\<rparr>)
              else Continue (d\<lparr>idle := idle d + 1, ticks := ticks d + 1,
                     globals := (globals d)\<lparr>out := out (globals d) @ [Idle_consumed TICK_MS]\<rparr>\<rparr>))) \<and>
         (\<not> (L0 (globals d) = [] \<and> L1 (globals d) = [] \<and> L2 (globals d) = []) \<longrightarrow>
           iteration d =
             Continue (d\<lparr>idle := 0, ticks := ticks d + 1,
                          globals := schedule_one_tick (globals d)\<rparr>)) \<and>
         render (Idle_consumed TICK_MS) = ''Process idle 0 has consumed 10 ms in IDLE'' \<and>
         procs (globals (start ub [])) = [] \<and>
         (procs (globals (start ub cmd)) = [] \<longrightarrow>
            (\<exists>d'. main_loop (start ub cmd) = Some d' \<and>
               map render (out (globals d')) =
                 replicate 10 ''Process idle 0 has consumed 10 ms in IDLE''))"
proof -
  from running_after [OF running_start, of n ub cmd] assms(1)
  have b: "0 \<le> ticks d" "0 \<le> idle d" by simp_all
  have idle_case: "iteration d =
             (if 10 < idle d + 1 then Break (d\<lparr>idle := idle d + 1, ticks := ticks d + 1\<rparr>)
              else Continue (d\<lparr>idle := idle d + 1, ticks := ticks d + 1,
                     globals := (globals d)\<lparr>out := out (globals d) @ [Idle_consumed TICK_MS]\<rparr>\<rparr>))"
    if "L0 (globals d) = [] \<and> L1 (globals d) = [] \<and> L2 (globals d) = []"
    using assms(2,3) b that by (intro iteration_idle) simp_all
  have active_case: "iteration d =
             Continue (d\<lparr>idle := 0, ticks := ticks d + 1,
                          globals := schedule_one_tick (globals d)\<rparr>)"
    if "\<not> (L0 (globals d) = [] \<and> L1 (globals d) = [] \<and> L2 (globals d) = [])"
    using assms(2) b that by (intro iteration_active) simp_all
  have empty: "procs (globals (start ub [])) = []"
    by (simp add: start_def userinit_spin_def userinit_loop.simps sim0_def procs_def)
  have quiet: "\<exists>d'. main_loop (start ub cmd) = Some d' \<and>
               map render (out (globals d')) =
                 replicate 10 ''Process idle 0 has consumed 10 ms in IDLE''"
    if "procs (globals (start ub cmd)) = []"
  proof -
    let ?g = "userinit_spin ub cmd sim0"
    from that have e: "L0 ?g = [] \<and> L1 ?g = [] \<and> L2 ?g = []"
      by (simp add: procs_def start_def)
    have "main_loop \<lparr>idle = 0, ticks = 0, globals = ?g\<rparr> =
           Some \<lparr>idle = 11, ticks = 0 + 11 - 0,
                 globals = ?g\<lparr>out := out ?g @ replicate (nat (10 - 0)) (Idle_consumed TICK_MS)\<rparr>\<rparr>"
      using e by (intro idle_run) simp_all
    moreover have "out ?g = []"
      using out_start [of ub cmd] by (simp add: start_def)
    ultimately show ?thesis
      by (simp add: start_def render_idle del: render.simps)
  qed
  from idle_case active_case empty quiet show ?thesis
    by (simp add: render_idle del: render.simps)
qed

theorem driver_iteration_witness:
  "(\<not> (L0 (globals (after_iterations 0 (start no_process ''spin 20''))) = [] \<and>
        L1 (globals (after_iterations 0 (start no_process ''spin 20''))) = [] \<and>
        L2 (globals (after_iterations 0 (start no_process ''spin 20''))) = []) \<and>
    iteration (after_iterations 0 (start no_process ''spin 20'')) =
      Continue ((after_iterations 0 (start no_process ''spin 20''))
        \<lparr>idle := 0, ticks := ticks (after_iterations 0 (start no_process ''spin 20'')) + 1,
         globals := schedule_one_tick (globals (after_iterations 0 (start no_process ''spin 20'')))\<rparr>)) \<and>
   (L0 (globals (after_iterations 2 (start no_process ''spin 20''))) = [] \<and>
    L1 (globals (after_iterations 2 (start no_process ''spin 20''))) = [] \<and>
    L2 (globals (after_iterations 2 (start no_process ''spin 20''))) = [] \<and>
    iteration (after_iterations 2 (start no_process ''spin 20'')) =
      Continue \<lparr>idle = 1, ticks = 3, globals = \<lparr>L0 = [], L1 = [], L2 = [], next_pid = 2,
        out = [Consumed ''spin'' 1 10 0, Consumed ''spin'' 1 10 1, Exited ''spin'' 1,
               Idle_consumed 10]\<rparr>\<rparr>) \<and>
   (procs (globals (start no_process ''hello; 42 &'')) = [] \<and>
    (\<exists>d'. main_loop (start no_process ''hello; 42 &'') = Some d' \<and>
       map render (out (globals d')) =
         replicate 10 ''Process idle 0 has consumed 10 ms in IDLE''))"
proof -
  have a: "ticks (after_iterations 0 (start no_process ''spin 20'')) \<le> 100000"
    "idle (after_iterations 0 (start no_process ''spin 20'')) \<le> 10"
    "\<not> (L0 (globals (after_iterations 0 (start no_process ''spin 20''))) = [] \<and>
        L1 (globals (after_iterations 0 (start no_process ''spin 20''))) = [] \<and>
        L2 (globals (after_iterations 0 (start no_process ''spin 20''))) = [])"
    by code_simp+
  have b: "ticks (after_iterations 2 (start no_process ''spin 20'')) \<le> 100000"
    "idle (after_iterations 2 (start no_process ''spin 20'')) \<le> 10"
    "L0 (globals (after_iterations 2 (start no_process ''spin 20''))) = [] \<and>
     L1 (globals (after_iterations 2 (start no_process ''spin 20''))) = [] \<and>
     L2 (globals (after_iterations 2 (start no_process ''spin 20''))) = []"
    by code_simp+
  have b': "(if 10 < idle (after_iterations 2 (start no_process ''spin 20'')) + 1
      then Break ((after_iterations 2 (start no_process ''spin 20''))
             \<lparr>idle := idle (after_iterations 2 (start no_process ''spin 20'')) + 1,
              ticks := ticks (after_iterations 2 (start no_process ''spin 20'')) + 1\<rparr>)
      else Continue ((after_iterations 2 (start no_process ''spin 20''))
             \<lparr>idle := idle (after_iterations 2 (start no_process ''spin 20'')) + 1,
              ticks := ticks (after_iterations 2 (start no_process ''spin 20'')) + 1,
              globals := (globals (after_iterations 2 (start no_process ''spin 20'')))
                \<lparr>out := out (globals (after_iterations 2 (start no_process ''spin 20''))) @
                   [Idle_consumed TICK_MS]\<rparr>\<rparr>)) =
      Continue \<lparr>idle = 1, ticks = 3, globals = \<lparr>L0 = [], L1 = [], L2 = [], next_pid = 2,
        out = [Consumed ''spin'' 1 10 0, Consumed ''spin'' 1 10 1, Exited ''spin'' 1,
               Idle_consumed 10]\<rparr>\<rparr>"
    by code_simp
  have c: "procs (globals (start no_process ''hello; 42 &'')) = []"
    by code_simp
  have c': "ticks (after_iterations 0 (start no_process ''hello; 42 &'')) \<le> 100000"
    "idle (after_iterations 0 (start no_process ''hello; 42 &'')) \<le> 10"
    by code_simp+
  from driver_iteration [OF refl a(1,2)] a(3)
    driver_iteration [OF refl b(1,2)] b(3) b'
    driver_iteration [OF refl c'] c
  show ?thesis
    by simp
qed

text \<open>
  C8 as stated fails on the pass that ends the loop: with an empty command line the
  eleventh pass finds all queues empty, takes the idle counter from 10 to 11 and
  breaks before anything is printed.
\<close>

theorem idle_line_counterexample:
  "L0 (globals (after_iterations 10 (start no_process ''''))) = [] \<and>
   L1 (globals (after_iterations 10 (start no_process ''''))) = [] \<and>
   L2 (globals (after_iterations 10 (start no_process ''''))) = [] \<and>
   idle (after_iterations 10 (start no_process '''')) = 10 \<and>
   iteration (after_iterations 10 (start no_process '''')) =
     Break \<lparr>idle = 11, ticks = 11, globals = globals (after_iterations 10 (start no_process ''''))\<rparr>"
  by code_simp



text \<open>
  C4. The level of a process never decreases and never leaves level 2: if \<open>p\<close> is
  resident after \<open>n\<close> iterations and \<open>q\<close> is the process with the same pid after
  \<open>n + k\<close> iterations, then \<open>level p \<le> level q \<le> 2\<close>, and \<open>level q = 2\<close> when
  \<open>level p = 2\<close>. Pids identify processes for command lines shorter than \<open>2^31 - 1\<close>
  bytes.
\<close>

theorem monotone_demotion:
  assumes "length cmd < 2147483647"
    and "p \<in> set (procs (globals (after_iterations n (start ub cmd))))"
    and "q \<in> set (procs (globals (after_iterations (n + k) (start ub cmd))))"
    and "pid q = pid p"
  shows "0 \<le> level p \<and> level p \<le> level q \<and> level q \<le> 2 \<and> (level p = 2 \<longrightarrow> level q = 2)"
proof -
  from level_back_after [OF sim_inv_start assms(3)] obtain p' where
    p': "p' \<in> set (procs (globals (after_iterations n (start ub cmd))))" "pid p' = pid q"
      "level p' \<le> level q"
    by blast
  from pid_inv_reachable [OF assms(1), of n]
  have "inj_on pid (set (procs (globals (after_iterations n (start ub cmd)))))"
    by (simp add: pid_inv_def distinct_map)
  with assms(2,4) p'(1,2) have "p' = p"
    by (auto dest: inj_onD)
  moreover from sim_inv_resident [OF sim_inv_reachable assms(2)] have "0 \<le> level p"
    by simp
  moreover from sim_inv_resident [OF sim_inv_reachable assms(3)] have "level q \<le> 2"
    by simp
  ultimately show ?thesis
    using p'(3) by auto
qed

theorem monotone_demotion_witness:
  "length ''spin 10; spin 30'' < 2147483647 \<and>
   \<lparr>pid = 2, name = ''spin'', work_left = 30, ticks_left = 1, level = 0\<rparr>
      \<in> set (procs (globals (after_iterations 1 (start no_process ''spin 10; spin 30'')))) \<and>
   \<lparr>pid = 2, name = ''spin'', work_left = 10, ticks_left = 1, level = 1\<rparr>
      \<in> set (procs (globals (after_iterations (1 + 2) (start no_process ''spin 10; spin 30'')))) \<and>
   pid \<lparr>pid = 2, name = ''spin'', work_left = 10, ticks_left = 1, level = 1\<rparr> =
      pid \<lparr>pid = 2, name = ''spin'', work_left = 30, ticks_left = 1, level = 0\<rparr> \<and>
   level \<lparr>pid = 2, name = ''spin'', work_left = 30, ticks_left = 1, level = 0\<rparr> \<le>
      level \<lparr>pid = 2, name = ''spin'', work_left = 10, ticks_left = 1, level = 1\<rparr>"
proof -
  have l: "length ''spin 10; spin 30'' < 2147483647"
    by simp
  have a: "\<lparr>pid = 2, name = ''spin'', work_left = 30, ticks_left = 1, level = 0\<rparr>
      \<in> set (procs (globals (after_iterations 1 (start no_process ''spin 10; spin 30''))))"
    by code_simp
  have b: "\<lparr>pid = 2, name = ''spin'', work_left = 10, ticks_left = 1, level = 1\<rparr>
      \<in> set (procs (globals (after_iterations (1 + 2) (start no_process ''spin 10; spin 30''))))"
    by code_simp
  have c: "pid \<lparr>pid = 2, name = ''spin'', work_left = 10, ticks_left = 1, level = 1\<rparr> =
      pid \<lparr>pid = 2, name = ''spin'', work_left = 30, ticks_left = 1, level = 0\<rparr>"
    by simp
  from monotone_demotion [OF l a b c] l a b c show ?thesis
    by blast
qed

text \<open>
  C9. The claim: the loader creates one process for every occurrence of \<open>spin\<close>
  followed by whitespace and a decimal integer, in order, and treats \<open>&\<close>, \<open>;\<close> and
  blanks as separators. The code at \<open>spin 10 & spin 20\<close>, which holds two such
  occurrences (\<open>spec_spin_amounts\<close> gives 10 and 20): after the first amount the loader
  skips to the next \<open>;\<close>, finds none, and ends with one process of work 10. The
  comments of the loader name \<open>&\<close> a separator like \<open>;\<close>; its skip loop stops at
  \<open>;\<close> only. This holds for every \<open>ub\<close>, since the amounts fit.
\<close>

theorem loader_skips_second_spin:
  "spec_spin_amounts ''spin 10 & spin 20'' = [10, 20] \<and>
   map work_left (procs (userinit_spin ub ''spin 10 & spin 20'' sim0)) = [10]"
proof -
  have f: "amounts_fit ''spin 10 & spin 20''"
    by code_simp
  have "userinit_spin ub ''spin 10 & spin 20'' sim0 =
      userinit_spin no_process ''spin 10 & spin 20'' sim0"
    unfolding userinit_spin_def using f by (rule userinit_loop_fit)
  moreover have "map work_left (procs (userinit_spin no_process ''spin 10 & spin 20'' sim0)) = [10]"
    by code_simp
  moreover have "spec_spin_amounts ''spin 10 & spin 20'' = [10, 20]"
    by code_simp
  ultimately show ?thesis
    by simp
qed

end
